theory Spec2Isabelle
  imports Main
begin

section \<open>Data model of qmldeclarativedata\_p.h\<close>

text \<open>
  Objects, extension records, guards, bindings and contexts are identified by their
  address, a natural number. A C++ pointer is an \<open>option\<close>: \<open>None\<close> is the null pointer.
  A pointer to a pointer field (\<open>QmlGuard **prev\<close>, \<open>QmlDeclarativeData **prevContextObject\<close>)
  is the name of the field it points at.
\<close>

datatype error = NullDereference | InvalidDereference | AssertionFailed | IndexOutOfRange

text \<open>The two places a \<open>QmlGuard<QObject> *\<close> is stored: the \<open>guards\<close> field of an
  extension record and the \<open>next\<close> field of a guard.\<close>

datatype guard_slot = GuardsSlot nat | NextSlot nat

text \<open>The two places a \<open>QmlDeclarativeData *\<close> of a context list is stored: the head held by
  a context and the \<open>nextContextObject\<close> field of an extension record.\<close>

datatype context_slot = ContextObjectsSlot nat | NextContextObjectSlot nat

text \<open>The fields of \<open>QmlGuard<T>\<close> that \<open>addGuard\<close> and \<open>remGuard\<close> use: \<open>o\<close>, \<open>next\<close>, \<open>prev\<close>.\<close>

record QmlGuard =
  guard_o :: "nat option"
  guard_next :: "nat option"
  guard_prev :: "guard_slot option"

record QmlDeclarativeData =
  "context" :: "nat option"
  bindings :: "nat option"
  nextContextObject :: "nat option"
  prevContextObject :: "context_slot option"
  bindingBitsSize :: int
  bindingBits :: "bool list option"
  outerContext :: "nat option"
  lineNumber :: nat
  columnNumber :: nat
  deferredComponent :: "nat option"
  deferredIdx :: nat
  attachedProperties :: "(int \<times> nat) list option"
  scriptValue :: "nat option"
  propertyCache :: "nat option"
  guards :: "nat option"

text \<open>The constructor \<open>QmlDeclarativeData(QmlContext *ctxt = 0)\<close>: every field but \<open>context\<close>
  is zero.\<close>

definition QmlDeclarativeData_new :: "nat option \<Rightarrow> QmlDeclarativeData" where
  "QmlDeclarativeData_new ctxt =
     \<lparr> context = ctxt, bindings = None, nextContextObject = None, prevContextObject = None,
       bindingBitsSize = 0, bindingBits = None, outerContext = None, lineNumber = 0,
       columnNumber = 0, deferredComponent = None, deferredIdx = 0, attachedProperties = None,
       scriptValue = None, propertyCache = None, guards = None \<rparr>"

text \<open>Modelled from the spec: the binding record (\<open>QmlAbstractBinding\<close>, only named in the
  header). A binding occupies one property slot, is linked to the next binding of the same
  object, and is attached or not. The teardown signals what it does to the owners of
  bindings and companions: the log of these signals is part of the memory.\<close>

record QmlAbstractBinding =
  binding_slot :: nat
  binding_next :: "nat option"
  binding_attached :: bool

datatype signal = BindingTargetGone nat | CompanionOwnerGone nat

text \<open>
  The memory the code works on. \<open>declarativeData\<close> is the back-pointer each object exposes
  (\<open>QObjectPrivate::declarativeData\<close>). \<open>dataHeap\<close> holds the extension records: the
  address of a record is its index, \<open>new\<close> appends, and a freed record leaves \<open>None\<close> behind,
  so a new address is never one already in use. \<open>contextObjects\<close> is the head of each
  context's object list (\<open>QmlContext::contextObjects\<close>, named in the header's comment).
\<close>

record store =
  declarativeData :: "nat \<Rightarrow> nat option"
  dataHeap :: "QmlDeclarativeData option list"
  guardHeap :: "nat \<Rightarrow> QmlGuard option"
  bindingHeap :: "nat \<Rightarrow> QmlAbstractBinding option"
  contextObjects :: "nat \<Rightarrow> nat option"
  signals :: "signal list"

definition lookupData :: "store \<Rightarrow> nat \<Rightarrow> QmlDeclarativeData option" where
  "lookupData s d = (if d < length (dataHeap s) then dataHeap s ! d else None)"

definition storeData :: "nat \<Rightarrow> QmlDeclarativeData \<Rightarrow> store \<Rightarrow> store" where
  "storeData d r s = s\<lparr>dataHeap := (dataHeap s)[d := Some r]\<rparr>"

definition storeGuard :: "nat \<Rightarrow> QmlGuard \<Rightarrow> store \<Rightarrow> store" where
  "storeGuard g r s = s\<lparr>guardHeap := (guardHeap s)(g := Some r)\<rparr>"

definition readGuardSlot :: "store \<Rightarrow> guard_slot \<Rightarrow> error + nat option" where
  "readGuardSlot s sl =
     (case sl of
        GuardsSlot d \<Rightarrow>
          (case lookupData s d of None \<Rightarrow> Inl InvalidDereference | Some r \<Rightarrow> Inr (guards r))
      | NextSlot p \<Rightarrow>
          (case guardHeap s p of None \<Rightarrow> Inl InvalidDereference | Some r \<Rightarrow> Inr (guard_next r)))"

definition writeGuardSlot :: "guard_slot \<Rightarrow> nat option \<Rightarrow> store \<Rightarrow> error + store" where
  "writeGuardSlot sl v s =
     (case sl of
        GuardsSlot d \<Rightarrow>
          (case lookupData s d of
             None \<Rightarrow> Inl InvalidDereference
           | Some r \<Rightarrow> Inr (storeData d (r\<lparr>guards := v\<rparr>) s))
      | NextSlot p \<Rightarrow>
          (case guardHeap s p of
             None \<Rightarrow> Inl InvalidDereference
           | Some r \<Rightarrow> Inr (storeGuard p (r\<lparr>guard_next := v\<rparr>) s)))"

section \<open>The registry: \<open>QmlDeclarativeData::get\<close>\<close>

text \<open>
  \<^verbatim>\<open>
  static QmlDeclarativeData *get(const QObject *object, bool create = false) {
      QObjectPrivate *priv = QObjectPrivate::get(const_cast<QObject *>(object));
      if (priv->declarativeData) {
          return static_cast<QmlDeclarativeData *>(priv->declarativeData);
      } else if (create) {
          priv->declarativeData = new QmlDeclarativeData;
          return static_cast<QmlDeclarativeData *>(priv->declarativeData);
      } else {
          return 0;
      }
  }
  \<close>
  The object is a live one (its address \<open>h\<close>); the null object is handled by the callers.
\<close>

definition get :: "nat \<Rightarrow> bool \<Rightarrow> store \<Rightarrow> nat option \<times> store" where
  "get h create s =
     (case declarativeData s h of
        Some d \<Rightarrow> (Some d, s)
      | None \<Rightarrow>
          if create then
            (let d = length (dataHeap s) in
               (Some d,
                s\<lparr>dataHeap := dataHeap s @ [Some (QmlDeclarativeData_new None)],
                  declarativeData := (declarativeData s)(h := Some d)\<rparr>))
          else (None, s))"

section \<open>The guard list: \<open>QmlGuard<T>::addGuard\<close> and \<open>QmlGuard<T>::remGuard\<close>\<close>

text \<open>
  \<^verbatim>\<open>
  void QmlGuard<T>::addGuard()
  {
      QmlDeclarativeData *data = QmlDeclarativeData::get(o, true);
      next = data->guards;
      if (next) reinterpret_cast<QmlGuard<T> *>(next)->prev = &next;
      data->guards = reinterpret_cast<QmlGuard<QObject> *>(this);
      prev = &data->guards;
  }
  \<close>
  Each statement reads the fields it uses from the memory as the statement before left it.
\<close>

definition setNext :: "nat \<Rightarrow> nat option \<Rightarrow> store \<Rightarrow> error + store" where
  "setNext g v s =
     (case guardHeap s g of
        None \<Rightarrow> Inl InvalidDereference
      | Some r \<Rightarrow> Inr (storeGuard g (r\<lparr>guard_next := v\<rparr>) s))"

definition setPrev :: "nat \<Rightarrow> guard_slot option \<Rightarrow> store \<Rightarrow> error + store" where
  "setPrev g v s =
     (case guardHeap s g of
        None \<Rightarrow> Inl InvalidDereference
      | Some r \<Rightarrow> Inr (storeGuard g (r\<lparr>guard_prev := v\<rparr>) s))"

text \<open>\<open>if (next) next->prev = v\<close>, with \<open>next\<close> read from the guard \<open>g\<close>.\<close>

definition setPrevOfNext :: "nat \<Rightarrow> guard_slot option \<Rightarrow> store \<Rightarrow> error + store" where
  "setPrevOfNext g v s =
     (case guardHeap s g of
        None \<Rightarrow> Inl InvalidDereference
      | Some r \<Rightarrow> (case guard_next r of None \<Rightarrow> Inr s | Some n \<Rightarrow> setPrev n v s))"

definition addGuard :: "nat \<Rightarrow> store \<Rightarrow> error + store" where
  "addGuard g s =
     (case guardHeap s g of
        None \<Rightarrow> Inl InvalidDereference
      | Some r \<Rightarrow>
     (case guard_o r of
        None \<Rightarrow> Inl NullDereference
      | Some h \<Rightarrow>
     (case get h True s of
        (None, s1) \<Rightarrow> Inl NullDereference
      | (Some d, s1) \<Rightarrow>
     (case lookupData s1 d of
        None \<Rightarrow> Inl InvalidDereference
      | Some dr \<Rightarrow>
     (case setNext g (guards dr) s1 of
        Inl e \<Rightarrow> Inl e
      | Inr s2 \<Rightarrow>
     (case setPrevOfNext g (Some (NextSlot g)) s2 of
        Inl e \<Rightarrow> Inl e
      | Inr s3 \<Rightarrow>
     (case writeGuardSlot (GuardsSlot d) (Some g) s3 of
        Inl e \<Rightarrow> Inl e
      | Inr s4 \<Rightarrow> setPrev g (Some (GuardsSlot d)) s4)))))))"

text \<open>
  \<^verbatim>\<open>
  void QmlGuard<T>::remGuard()
  {
      if (next) reinterpret_cast<QmlGuard<T> *>(next)->prev = prev;
      *prev = next;
      next = 0;
      prev = 0;
  }
  \<close>
  \<open>*prev = next\<close> writes through \<open>prev\<close> whatever it is: through the null pointer when the
  guard is in no list.
\<close>

definition remGuard :: "nat \<Rightarrow> store \<Rightarrow> error + store" where
  "remGuard g s =
     (case guardHeap s g of
        None \<Rightarrow> Inl InvalidDereference
      | Some r \<Rightarrow>
     (case setPrevOfNext g (guard_prev r) s of
        Inl e \<Rightarrow> Inl e
      | Inr s1 \<Rightarrow>
     (case guardHeap s1 g of
        None \<Rightarrow> Inl InvalidDereference
      | Some r1 \<Rightarrow>
     (case guard_prev r1 of
        None \<Rightarrow> Inl NullDereference
      | Some sl \<Rightarrow>
     (case writeGuardSlot sl (guard_next r1) s1 of
        Inl e \<Rightarrow> Inl e
      | Inr s2 \<Rightarrow>
     (case setNext g None s2 of
        Inl e \<Rightarrow> Inl e
      | Inr s3 \<Rightarrow> setPrev g None s3))))))"

section \<open>Guard lists as sequences\<close>

text \<open>
  \<open>guardList s sl gs\<close>: starting at the pointer stored in \<open>sl\<close> and following \<open>next\<close>, the
  guards met are exactly \<open>gs\<close>, in this order, the last \<open>next\<close> is null, and the \<open>prev\<close> of
  each guard names the field that points at it. \<open>guardPath\<close> is the same without the
  closing null, and \<open>lastSlot\<close> is the field where a path stops. \<open>guardPrevOf s g\<close> is
  the \<open>prev\<close> of guard \<open>g\<close>, null for an address that holds no guard.
\<close>

definition guardPrevOf :: "store \<Rightarrow> nat \<Rightarrow> guard_slot option" where
  "guardPrevOf s g = (case guardHeap s g of None \<Rightarrow> None | Some r \<Rightarrow> guard_prev r)"

definition linkedAt :: "store \<Rightarrow> guard_slot \<Rightarrow> nat \<Rightarrow> bool" where
  "linkedAt s sl g \<longleftrightarrow> readGuardSlot s sl = Inr (Some g) \<and> guardPrevOf s g = Some sl"

fun guardPath :: "store \<Rightarrow> guard_slot \<Rightarrow> nat list \<Rightarrow> bool" where
  "guardPath s sl [] = True"
| "guardPath s sl (g # gs) = (linkedAt s sl g \<and> guardPath s (NextSlot g) gs)"

fun lastSlot :: "guard_slot \<Rightarrow> nat list \<Rightarrow> guard_slot" where
  "lastSlot sl [] = sl"
| "lastSlot sl (g # gs) = lastSlot (NextSlot g) gs"

fun guardList :: "store \<Rightarrow> guard_slot \<Rightarrow> nat list \<Rightarrow> bool" where
  "guardList s sl [] = (readGuardSlot s sl = Inr None)"
| "guardList s sl (g # gs) = (linkedAt s sl g \<and> guardList s (NextSlot g) gs)"

text \<open>The guard at the head of the list of object \<open>h\<close>; null when \<open>h\<close> has no extension
  record.\<close>

definition guardsHead :: "store \<Rightarrow> nat \<Rightarrow> nat option" where
  "guardsHead s h =
     (case declarativeData s h of
        None \<Rightarrow> None
      | Some d \<Rightarrow> (case lookupData s d of None \<Rightarrow> None | Some r \<Rightarrow> guards r))"

text \<open>The back-pointer of an object, when set, is the address of a record in use.\<close>

definition hostValid :: "store \<Rightarrow> nat \<Rightarrow> bool" where
  "hostValid s h \<longleftrightarrow>
     (case declarativeData s h of None \<Rightarrow> True | Some d \<Rightarrow> lookupData s d \<noteq> None)"

text \<open>The target a guard reports, \<open>g.target()\<close>: its field \<open>o\<close>.\<close>

definition target :: "store \<Rightarrow> nat \<Rightarrow> nat option" where
  "target s g = (case guardHeap s g of None \<Rightarrow> None | Some r \<Rightarrow> guard_o r)"

subsection \<open>The back-pointer invariant\<close>

text \<open>\<open>*g.prev == g\<close> for every guard with a back-reference.\<close>

definition prevHoldsSelf :: "store \<Rightarrow> bool" where
  "prevHoldsSelf s \<longleftrightarrow>
     (\<forall>g r sl. guardHeap s g = Some r \<longrightarrow> guard_prev r = Some sl \<longrightarrow>
        readGuardSlot s sl = Inr (Some g))"

text \<open>The \<open>next\<close> of a guard, if present, has its \<open>prev\<close> pointing at that \<open>next\<close> field.\<close>

definition nextPointsBack :: "store \<Rightarrow> bool" where
  "nextPointsBack s \<longleftrightarrow>
     (\<forall>g r n. guardHeap s g = Some r \<longrightarrow> guard_next r = Some n \<longrightarrow>
        (\<exists>rn. guardHeap s n = Some rn \<and> guard_prev rn = Some (NextSlot g)))"

text \<open>The same for the head: the first guard of a record has its \<open>prev\<close> pointing at the
  record's \<open>guards\<close> field.\<close>

definition headPointsBack :: "store \<Rightarrow> bool" where
  "headPointsBack s \<longleftrightarrow>
     (\<forall>d dr g. lookupData s d = Some dr \<longrightarrow> guards dr = Some g \<longrightarrow>
        (\<exists>r. guardHeap s g = Some r \<and> guard_prev r = Some (GuardsSlot d)))"

definition guardInv :: "store \<Rightarrow> bool" where
  "guardInv s \<longleftrightarrow> prevHoldsSelf s \<and> nextPointsBack s \<and> headPointsBack s"

text \<open>A guard in no list: \<open>next\<close> and \<open>prev\<close> are both null.\<close>

definition unregistered :: "store \<Rightarrow> nat \<Rightarrow> bool" where
  "unregistered s g \<longleftrightarrow>
     (case guardHeap s g of
        None \<Rightarrow> False
      | Some r \<Rightarrow> guard_next r = None \<and> guard_prev r = None)"

section \<open>Context object lists\<close>

definition readContextSlot :: "store \<Rightarrow> context_slot \<Rightarrow> error + nat option" where
  "readContextSlot s sl =
     (case sl of
        ContextObjectsSlot c \<Rightarrow> Inr (contextObjects s c)
      | NextContextObjectSlot p \<Rightarrow>
          (case lookupData s p of
             None \<Rightarrow> Inl InvalidDereference
           | Some r \<Rightarrow> Inr (nextContextObject r)))"

definition writeContextSlot :: "context_slot \<Rightarrow> nat option \<Rightarrow> store \<Rightarrow> error + store" where
  "writeContextSlot sl v s =
     (case sl of
        ContextObjectsSlot c \<Rightarrow> Inr (s\<lparr>contextObjects := (contextObjects s)(c := v)\<rparr>)
      | NextContextObjectSlot p \<Rightarrow>
          (case lookupData s p of
             None \<Rightarrow> Inl InvalidDereference
           | Some r \<Rightarrow> Inr (storeData p (r\<lparr>nextContextObject := v\<rparr>) s)))"

text \<open>The extension records of the list of context \<open>c\<close>, read from its head: \<open>ds\<close> is that
  list when \<open>contextList s (ContextObjectsSlot c) ds\<close> holds.\<close>

fun contextList :: "store \<Rightarrow> context_slot \<Rightarrow> nat list \<Rightarrow> bool" where
  "contextList s sl [] = (readContextSlot s sl = Inr None)"
| "contextList s sl (d # ds) =
     (readContextSlot s sl = Inr (Some d) \<and>
      (case lookupData s d of None \<Rightarrow> False | Some r \<Rightarrow> prevContextObject r = Some sl) \<and>
      contextList s (NextContextObjectSlot d) ds)"

section \<open>Teardown: \<open>QmlDeclarativeData::destroyed\<close>\<close>

text \<open>
  The header declares \<open>virtual void destroyed(QObject *)\<close>; its body is in no file at hand.
  The definitions of this section follow the specification's description of the teardown
  hook, step by step: (a) the guards, (b) the bindings, (c) the context list, (d) the
  attached companions, (e) the record itself.
\<close>

text \<open>Modelled from the spec: step (a) of \<open>destroyed\<close>, whose body is missing. Walk the guard
  list front to back, set each guard's target to absent and unlink it (by \<open>remGuard\<close>); the
  next guard is read before the current one is unlinked.\<close>

partial_function (option) invalidateGuards :: "nat option \<Rightarrow> store \<Rightarrow> (error + store) option" where
  "invalidateGuards guard s =
     (case guard of
        None \<Rightarrow> Some (Inr s)
      | Some g \<Rightarrow>
          (case guardHeap s g of
             None \<Rightarrow> Some (Inl InvalidDereference)
           | Some r \<Rightarrow>
               (case remGuard g (storeGuard g (r\<lparr>guard_o := None\<rparr>) s) of
                  Inl e \<Rightarrow> Some (Inl e)
                | Inr s' \<Rightarrow> invalidateGuards (guard_next r) s')))"

text \<open>Modelled from the spec: \<open>clearBindingBit\<close>, declared in the header without a body.
  Clears the bit of a property slot; a slot beyond the current size has no bit.\<close>

definition clearBindingBit :: "int \<Rightarrow> QmlDeclarativeData \<Rightarrow> QmlDeclarativeData" where
  "clearBindingBit i r =
     (if 0 \<le> i \<and> i < bindingBitsSize r then
        r\<lparr>bindingBits := map_option (\<lambda>bs. bs[nat i := False]) (bindingBits r)\<rparr>
      else r)"

text \<open>Modelled from the spec: step (b) of \<open>destroyed\<close>. Walk the binding list of record \<open>d\<close>,
  detach each binding from its property slot (clear the bit, unlink the binding) and signal
  that its target is gone.\<close>

partial_function (option) detachBindings :: "nat \<Rightarrow> nat option \<Rightarrow> store \<Rightarrow> (error + store) option" where
  "detachBindings d binding s =
     (case binding of
        None \<Rightarrow> Some (Inr s)
      | Some b \<Rightarrow>
          (case bindingHeap s b of
             None \<Rightarrow> Some (Inl InvalidDereference)
           | Some br \<Rightarrow>
               (case lookupData s d of
                  None \<Rightarrow> Some (Inl InvalidDereference)
                | Some dr \<Rightarrow>
                    detachBindings d (binding_next br)
                      ((storeData d
                          ((clearBindingBit (int (binding_slot br)) dr)\<lparr>bindings := binding_next br\<rparr>) s)
                       \<lparr>bindingHeap :=
                          (bindingHeap s)(b := Some (br\<lparr>binding_next := None, binding_attached := False\<rparr>)),
                        signals := signals s @ [BindingTargetGone b]\<rparr>))))"

text \<open>Modelled from the spec: step (c) of \<open>destroyed\<close>. Unlink record \<open>d\<close> from its context
  list through the stored back-reference, without a scan; a record in no list (null
  back-reference) is left as it is.\<close>

definition unlinkContextObject :: "nat \<Rightarrow> store \<Rightarrow> error + store" where
  "unlinkContextObject d s =
     (case lookupData s d of
        None \<Rightarrow> Inl InvalidDereference
      | Some dr \<Rightarrow>
     (case prevContextObject dr of
        None \<Rightarrow> Inr s
      | Some sl \<Rightarrow>
     (case (case nextContextObject dr of
              None \<Rightarrow> Inr s
            | Some n \<Rightarrow>
                (case lookupData s n of
                   None \<Rightarrow> Inl InvalidDereference
                 | Some nr \<Rightarrow> Inr (storeData n (nr\<lparr>prevContextObject := Some sl\<rparr>) s))) of
        Inl e \<Rightarrow> Inl e
      | Inr s1 \<Rightarrow>
     (case writeContextSlot sl (nextContextObject dr) s1 of
        Inl e \<Rightarrow> Inl e
      | Inr s2 \<Rightarrow>
     (case lookupData s2 d of
        None \<Rightarrow> Inl InvalidDereference
      | Some dr2 \<Rightarrow>
          Inr (storeData d (dr2\<lparr>nextContextObject := None, prevContextObject := None\<rparr>) s2))))))"

text \<open>Modelled from the spec: step (d) of \<open>destroyed\<close>. Each attached companion is told that
  its owner is gone; the companion itself is not destroyed.\<close>

definition releaseCompanions :: "nat \<Rightarrow> store \<Rightarrow> error + store" where
  "releaseCompanions d s =
     (case lookupData s d of
        None \<Rightarrow> Inl InvalidDereference
      | Some dr \<Rightarrow>
          Inr ((storeData d (dr\<lparr>attachedProperties := None\<rparr>) s)
               \<lparr>signals := signals s @
                  map (\<lambda>kv. CompanionOwnerGone (snd kv))
                    (case attachedProperties dr of None \<Rightarrow> [] | Some hash \<Rightarrow> hash)\<rparr>))"

text \<open>Modelled from the spec: step (e) of \<open>destroyed\<close>. The record is freed and the object no
  longer carries one.\<close>

definition freeData :: "nat \<Rightarrow> nat \<Rightarrow> store \<Rightarrow> store" where
  "freeData h d s =
     s\<lparr>dataHeap := (dataHeap s)[d := None], declarativeData := (declarativeData s)(h := None)\<rparr>"

text \<open>Modelled from the spec: \<open>QmlDeclarativeData::destroyed\<close> (\<open>onHostDestroyed\<close>), declared in
  the header, body missing. No extension record: nothing to do. Otherwise steps (a) to (e)
  in this order. The result is \<open>None\<close> when a walk does not come to an end.\<close>

definition destroyed :: "nat \<Rightarrow> store \<Rightarrow> (error + store) option" where
  "destroyed h s =
     (case declarativeData s h of
        None \<Rightarrow> Some (Inr s)
      | Some d \<Rightarrow>
     (case lookupData s d of
        None \<Rightarrow> Some (Inl InvalidDereference)
      | Some dr \<Rightarrow>
     (case invalidateGuards (guards dr) s of
        None \<Rightarrow> None
      | Some (Inl e) \<Rightarrow> Some (Inl e)
      | Some (Inr s1) \<Rightarrow>
     (case lookupData s1 d of
        None \<Rightarrow> Some (Inl InvalidDereference)
      | Some dr1 \<Rightarrow>
     (case detachBindings d (bindings dr1) s1 of
        None \<Rightarrow> None
      | Some (Inl e) \<Rightarrow> Some (Inl e)
      | Some (Inr s2) \<Rightarrow>
     (case unlinkContextObject d s2 of
        Inl e \<Rightarrow> Some (Inl e)
      | Inr s3 \<Rightarrow>
     (case releaseCompanions d s3 of
        Inl e \<Rightarrow> Some (Inl e)
      | Inr s4 \<Rightarrow> Some (Inr (freeData h d s4)))))))))"

text \<open>The binding list of a record as a sequence: the bindings met from \<open>b\<close> along
  \<open>binding_next\<close>, ending in null.\<close>

fun bindingList :: "store \<Rightarrow> nat option \<Rightarrow> nat list \<Rightarrow> bool" where
  "bindingList s b [] = (b = None)"
| "bindingList s b (x # xs) =
     (b = Some x \<and>
      (case bindingHeap s x of None \<Rightarrow> False | Some r \<Rightarrow> bindingList s (binding_next r) xs))"

text \<open>The context-list node of a record is sound: its neighbours are records in use.\<close>

definition contextNodeValid :: "store \<Rightarrow> nat \<Rightarrow> bool" where
  "contextNodeValid s d \<longleftrightarrow>
     (case lookupData s d of
        None \<Rightarrow> False
      | Some dr \<Rightarrow>
          (case prevContextObject dr of
             None \<Rightarrow> True
           | Some sl \<Rightarrow>
               (case nextContextObject dr of None \<Rightarrow> True | Some n \<Rightarrow> lookupData s n \<noteq> None) \<and>
               (case sl of
                  ContextObjectsSlot c \<Rightarrow> True
                | NextContextObjectSlot p \<Rightarrow> lookupData s p \<noteq> None)))"

section \<open>The name resolver: \<open>QmlTypeNameScriptClass::queryProperty\<close>\<close>

subsection \<open>Strings\<close>

text \<open>
  A \<open>QString\<close> is a list of characters; a character of this model is a code point below 256.
  \<open>at\<close> is \<open>QString::at\<close>, which asserts that the index is in range. \<open>isUpper\<close> is
  \<open>QChar::isUpper\<close> on these code points (the uppercase letters of ASCII and of Latin-1).
  \<open>toUtf8\<close> encodes a code point from 128 on in two bytes, and \<open>constData\<close> is the
  C string handed to \<open>keyToValue\<close>: the bytes before the first zero byte.
\<close>

definition at :: "string \<Rightarrow> int \<Rightarrow> error + char" where
  "at str i = (if 0 \<le> i \<and> i < int (length str) then Inr (str ! nat i) else Inl IndexOutOfRange)"

definition isUpper :: "char \<Rightarrow> bool" where
  "isUpper c =
     (let n = (of_char c :: nat)
      in (65 \<le> n \<and> n \<le> 90) \<or> (192 \<le> n \<and> n \<le> 222 \<and> n \<noteq> 215))"

definition toUtf8 :: "string \<Rightarrow> string" where
  "toUtf8 str =
     concat (map (\<lambda>c. let n = (of_char c :: nat)
                      in if n < 128 then [c]
                         else [char_of (192 + n div 64), char_of (128 + n mod 64)]) str)"

definition constData :: "string \<Rightarrow> string" where
  "constData bytes = takeWhile (\<lambda>c. (of_char c :: nat) \<noteq> 0) bytes"

subsection \<open>Meta objects\<close>

text \<open>
  An enumeration (\<open>QMetaEnum\<close>) is its list of keys with their values. A meta object has its
  own enumerations, in declaration order, and the meta object of its base class.
\<close>

type_synonym QMetaEnum = "(string \<times> int) list"

datatype QMetaObject = QMetaObject (superdata: "QMetaObject option") (ownEnumerators: "QMetaEnum list")

text \<open>Modelled from the spec: \<open>QMetaObject::enumeratorCount\<close>, which is not in the files at
  hand. The enumerations of a type are its own and those of its base types.\<close>

fun enumeratorCount :: "QMetaObject \<Rightarrow> int" where
  "enumeratorCount (QMetaObject base own) =
     (case base of None \<Rightarrow> 0 | Some m \<Rightarrow> enumeratorCount m) + int (length own)"

text \<open>Modelled from the spec: \<open>QMetaObject::enumerator\<close>, which is not in the files at hand.
  The enumerations are numbered base types first, so that going down from the last index
  meets the most derived type first. An index out of range gives no enumeration.\<close>

fun enumerator :: "QMetaObject \<Rightarrow> int \<Rightarrow> QMetaEnum option" where
  "enumerator (QMetaObject base own) i =
     (let offset = (case base of None \<Rightarrow> 0 | Some m \<Rightarrow> enumeratorCount m)
      in if i < offset then (case base of None \<Rightarrow> None | Some m \<Rightarrow> enumerator m i)
         else if i - offset < int (length own) then Some (own ! nat (i - offset))
         else None)"

text \<open>Modelled from the spec: \<open>QMetaEnum::keyToValue\<close>, which is not in the files at hand.
  The value of the first key equal to the name; \<open>-1\<close>, the value the caller tests for, when
  there is none.\<close>

definition keyToValue :: "QMetaEnum option \<Rightarrow> string \<Rightarrow> int" where
  "keyToValue e key =
     (case e of
        None \<Rightarrow> - 1
      | Some kvs \<Rightarrow> (case map_of kvs key of None \<Rightarrow> - 1 | Some v \<Rightarrow> v))"

subsection \<open>Types, namespaces and the resolution subject\<close>

record QmlType =
  index :: int
  baseMetaObject :: QMetaObject

text \<open>\<open>QmlTypeNameCache::data(name)\<close> gives the entry of a name, or null; the entry's \<open>type\<close> is
  a type or null.\<close>

record QmlTypeNameCache_Data =
  data_type :: "QmlType option"

type_synonym QmlTypeNameCache = "string \<Rightarrow> QmlTypeNameCache_Data option"

datatype TypeNameMode = IncludeEnums | ExcludeEnums

record TypeNameData =
  object :: "nat option"
  type :: "QmlType option"
  typeNamespace :: "QmlTypeNameCache option"
  mode :: TypeNameMode

text \<open>The members of the script class that \<open>queryProperty\<close> sets for the \<open>property\<close> call
  that follows: \<open>object\<close>, \<open>type\<close> and \<open>enumValue\<close>.\<close>

record QmlTypeNameScriptClass =
  current_object :: "nat option"
  current_type :: "QmlType option"
  enumValue :: int

text \<open>What \<open>queryProperty\<close> reaches through the engine: the factory of attached companions
  (it may decline, giving null) and the query of the object script class on a companion.\<close>

record QmlEnginePrivate =
  attachedPropertiesFunc :: "int \<Rightarrow> nat \<Rightarrow> nat option"
  objectClass_queryProperty :: "nat \<Rightarrow> string \<Rightarrow> nat \<Rightarrow> nat"

definition HandlesReadAccess :: nat where
  "HandlesReadAccess = 1"

text \<open>Modelled from the spec: \<open>qmlAttachedPropertiesObjectById\<close>, called by \<open>queryProperty\<close> and
  not in the files at hand. Ask the extension record of the object (creating it if absent)
  for the companion keyed by the type; if none is cached, ask the factory; store what it
  makes; when it declines, store nothing and give null.\<close>

definition qmlAttachedPropertiesObjectById ::
  "QmlEnginePrivate \<Rightarrow> int \<Rightarrow> nat \<Rightarrow> store \<Rightarrow> error + (nat option \<times> store)" where
  "qmlAttachedPropertiesObjectById ep typeId h s =
     (case get h True s of
        (None, s1) \<Rightarrow> Inl NullDereference
      | (Some d, s1) \<Rightarrow>
     (case lookupData s1 d of
        None \<Rightarrow> Inl InvalidDereference
      | Some dr \<Rightarrow>
     (case (case attachedProperties dr of None \<Rightarrow> None | Some hash \<Rightarrow> map_of hash typeId) of
        Some c \<Rightarrow> Inr (Some c, s1)
      | None \<Rightarrow>
     (case attachedPropertiesFunc ep typeId h of
        None \<Rightarrow> Inr (None, s1)
      | Some c \<Rightarrow>
          Inr (Some c,
               storeData d
                 (dr\<lparr>attachedProperties :=
                       Some ((typeId, c) # (case attachedProperties dr of None \<Rightarrow> [] | Some hash \<Rightarrow> hash))\<rparr>)
                 s1)))))"

text \<open>The companion cached for a type on an object, if any.\<close>

definition cachedCompanion :: "store \<Rightarrow> nat \<Rightarrow> int \<Rightarrow> nat option" where
  "cachedCompanion s h typeId =
     (case declarativeData s h of
        None \<Rightarrow> None
      | Some d \<Rightarrow>
          (case lookupData s d of
             None \<Rightarrow> None
           | Some dr \<Rightarrow> (case attachedProperties dr of None \<Rightarrow> None | Some hash \<Rightarrow> map_of hash typeId)))"

subsection \<open>The enumerator scan\<close>

text \<open>
  \<^verbatim>\<open>
  for (int ii = metaObject->enumeratorCount() - 1; ii >= 0; --ii) {
      QMetaEnum e = metaObject->enumerator(ii);
      int value = e.keyToValue(enumName.constData());
      if (value != -1) {
          enumValue = value;
          return QScriptClass::HandlesReadAccess;
      }
  }
  \<close>
  The loop, from index \<open>ii\<close> down: the value found, or \<open>None\<close> when it runs out.
\<close>

function scanEnumerators :: "QMetaObject \<Rightarrow> string \<Rightarrow> int \<Rightarrow> int option" where
  "scanEnumerators metaObject enumName ii =
     (if ii \<ge> 0 then
        (let v = keyToValue (enumerator metaObject ii) enumName
         in if v \<noteq> - 1 then Some v else scanEnumerators metaObject enumName (ii - 1))
      else None)"
  by pat_completeness auto
termination
  by (relation "measure (\<lambda>(m, k, ii). nat (ii + 1))") auto

subsection \<open>\<open>queryProperty\<close>\<close>

text \<open>
  \<^verbatim>\<open>
  object = 0;
  type = 0;
  if (data->typeNamespace) {
      QmlTypeNameCache::Data *d = data->typeNamespace->data(name);
      if (d && d->type) { type = d->type; return QScriptClass::HandlesReadAccess; }
      else { return 0; }
  } else {
      Q_ASSERT(data->type);
      QString strName = toString(name);
      if (strName.at(0).isUpper()) {
          // Must be an enum
          if (data->mode == IncludeEnums) { ... the scan ... }
          return 0;
      } else if (data->object) {
          // Must be an attached property
          object = qmlAttachedPropertiesObjectById(data->type->index(), data->object);
          if (!object) return 0;
          return ep->objectClass->queryProperty(object, name, flags, 0);
      }
  }
  return 0;
  \<close>
  The result is the flags returned (\<open>0\<close> is unresolved), the members of the script class
  and the memory afterwards.
\<close>

definition queryProperty ::
  "QmlEnginePrivate \<Rightarrow> TypeNameData \<Rightarrow> string \<Rightarrow> nat \<Rightarrow> QmlTypeNameScriptClass \<Rightarrow> store \<Rightarrow>
     error + (nat \<times> QmlTypeNameScriptClass \<times> store)" where
  "queryProperty ep data name flags this s =
     (let this0 = this\<lparr>current_object := None, current_type := None\<rparr> in
      case typeNamespace data of
        Some ns \<Rightarrow>
          (case ns name of
             None \<Rightarrow> Inr (0, this0, s)
           | Some d \<Rightarrow>
               (case data_type d of
                  None \<Rightarrow> Inr (0, this0, s)
                | Some t \<Rightarrow> Inr (HandlesReadAccess, this0\<lparr>current_type := Some t\<rparr>, s)))
      | None \<Rightarrow>
          (case type data of
             None \<Rightarrow> Inl AssertionFailed
           | Some t \<Rightarrow>
               (case at name 0 of
                  Inl e \<Rightarrow> Inl e
                | Inr c \<Rightarrow>
                    if isUpper c then
                      (if mode data = IncludeEnums then
                         (case scanEnumerators (baseMetaObject t) (constData (toUtf8 name))
                                 (enumeratorCount (baseMetaObject t) - 1) of
                            Some v \<Rightarrow> Inr (HandlesReadAccess, this0\<lparr>enumValue := v\<rparr>, s)
                          | None \<Rightarrow> Inr (0, this0, s))
                       else Inr (0, this0, s))
                    else
                      (case object data of
                         None \<Rightarrow> Inr (0, this0, s)
                       | Some h \<Rightarrow>
                           (case qmlAttachedPropertiesObjectById ep (index t) h s of
                              Inl e \<Rightarrow> Inl e
                            | Inr (None, s') \<Rightarrow> Inr (0, this0, s')
                            | Inr (Some c, s') \<Rightarrow>
                                Inr (objectClass_queryProperty ep c name flags,
                                     this0\<lparr>current_object := Some c\<rparr>, s'))))))"

text \<open>
  The specification's reading of the enumerator lookup, for comparison with the scan: the
  enumerations of the type most derived first, and the value of the name in the first of
  them that has it as a key.
\<close>

fun enumsMostDerivedFirst :: "QMetaObject \<Rightarrow> QMetaEnum list" where
  "enumsMostDerivedFirst (QMetaObject base own) =
     rev own @ (case base of None \<Rightarrow> [] | Some m \<Rightarrow> enumsMostDerivedFirst m)"

definition firstMatch :: "QMetaObject \<Rightarrow> string \<Rightarrow> int option" where
  "firstMatch metaObject key =
     (case find (\<lambda>e. map_of e key \<noteq> None) (enumsMostDerivedFirst metaObject) of
        None \<Rightarrow> None
      | Some e \<Rightarrow> map_of e key)"

text \<open>No enumeration of the type gives the key the value \<open>-1\<close>.\<close>

definition noMinusOne :: "QMetaObject \<Rightarrow> string \<Rightarrow> bool" where
  "noMinusOne metaObject key \<longleftrightarrow>
     list_all (\<lambda>e. map_of e key \<noteq> Some (- 1)) (enumsMostDerivedFirst metaObject)"

section \<open>Concrete stores\<close>

text \<open>The memory before anything is attached: no extension record, no guard, no binding,
  every context list empty.\<close>

definition emptyStore :: store where
  "emptyStore =
     \<lparr> declarativeData = (\<lambda>h. None), dataHeap = [], guardHeap = (\<lambda>g. None),
       bindingHeap = (\<lambda>b. None), contextObjects = (\<lambda>c. None), signals = [] \<rparr>"

text \<open>A guard as its constructor leaves it before registration: target \<open>h\<close>, in no list.\<close>

definition newGuard :: "nat \<Rightarrow> QmlGuard" where
  "newGuard h = \<lparr> guard_o = Some h, guard_next = None, guard_prev = None \<rparr>"

text \<open>The script class before a query, and an engine whose companion factory declines
  every request, one whose factory makes companion \<open>42\<close>.\<close>

definition freshScriptClass :: QmlTypeNameScriptClass where
  "freshScriptClass = \<lparr> current_object = None, current_type = None, enumValue = 0 \<rparr>"

definition decliningEngine :: QmlEnginePrivate where
  "decliningEngine =
     \<lparr> attachedPropertiesFunc = (\<lambda>typeId h. None),
       objectClass_queryProperty = (\<lambda>ob name flags. HandlesReadAccess) \<rparr>"

definition makingEngine :: QmlEnginePrivate where
  "makingEngine =
     \<lparr> attachedPropertiesFunc = (\<lambda>typeId h. Some 42),
       objectClass_queryProperty = (\<lambda>ob name flags. HandlesReadAccess) \<rparr>"

text \<open>The scenario of the specification: a base type declaring \<open>Foo = 7\<close> and a derived type
  declaring \<open>Foo = 9\<close> again.\<close>

definition baseMeta :: QMetaObject where
  "baseMeta = QMetaObject None [[(''Foo'', 7), (''Bar'', 1)]]"

definition derivedMeta :: QMetaObject where
  "derivedMeta = QMetaObject (Some baseMeta) [[(''Foo'', 9)]]"

definition derivedType :: QmlType where
  "derivedType = \<lparr> index = 5, baseMetaObject = derivedMeta \<rparr>"

text \<open>A derived type whose own \<open>Foo\<close> has the value \<open>-1\<close>.\<close>

definition minusOneType :: QmlType where
  "minusOneType =
     \<lparr> index = 6, baseMetaObject = QMetaObject (Some baseMeta) [[(''Foo'', - 1)]] \<rparr>"

definition subjectOf :: "QmlType \<Rightarrow> nat option \<Rightarrow> TypeNameMode \<Rightarrow> TypeNameData" where
  "subjectOf t ob m = \<lparr> object = ob, type = Some t, typeNamespace = None, mode = m \<rparr>"

text \<open>A memory with one object, \<open>0\<close>, whose record \<open>0\<close> has guard \<open>1\<close> registered; guard \<open>2\<close>
  has the same target and is in no list yet.\<close>

definition twoGuardStore :: store where
  "twoGuardStore =
     \<lparr> declarativeData = (\<lambda>h. None)(0 := Some 0),
       dataHeap = [Some ((QmlDeclarativeData_new None)\<lparr>guards := Some 1\<rparr>)],
       guardHeap = (\<lambda>g. None)
         (1 := Some \<lparr> guard_o = Some 0, guard_next = None, guard_prev = Some (GuardsSlot 0) \<rparr>,
          2 := Some (newGuard 0)),
       bindingHeap = (\<lambda>b. None), contextObjects = (\<lambda>c. None), signals = [] \<rparr>"

text \<open>A memory with one object, \<open>0\<close>, created in context \<open>7\<close>: its record \<open>0\<close> is the only
  member of the context's list, has guards \<open>2\<close> and \<open>1\<close> registered (in this order), bindings
  \<open>5\<close> and \<open>6\<close> on the property slots 1 and 3, and companion \<open>42\<close> for type \<open>5\<close>. Guard
  \<open>3\<close> has the same target and is in no list yet.\<close>

definition populatedStore :: store where
  "populatedStore =
     \<lparr> declarativeData = (\<lambda>h. None)(0 := Some 0),
       dataHeap =
         [Some ((QmlDeclarativeData_new (Some 7))
            \<lparr>bindings := Some 5, prevContextObject := Some (ContextObjectsSlot 7),
             bindingBitsSize := 4, bindingBits := Some [False, True, False, True],
             attachedProperties := Some [(5, 42)], guards := Some 2\<rparr>)],
       guardHeap = (\<lambda>g. None)
         (2 := Some \<lparr> guard_o = Some 0, guard_next = Some 1, guard_prev = Some (GuardsSlot 0) \<rparr>,
          1 := Some \<lparr> guard_o = Some 0, guard_next = None, guard_prev = Some (NextSlot 2) \<rparr>,
          3 := Some (newGuard 0)),
       bindingHeap = (\<lambda>b. None)
         (5 := Some \<lparr> binding_slot = 1, binding_next = Some 6, binding_attached = True \<rparr>,
          6 := Some \<lparr> binding_slot = 3, binding_next = None, binding_attached = True \<rparr>),
       contextObjects = (\<lambda>c. None)(7 := Some 0), signals = [] \<rparr>"

section \<open>Properties of the registry\<close>

lemma lookupData_append_new:
  "lookupData (s\<lparr>dataHeap := dataHeap s @ [x], declarativeData := f\<rparr>) d =
     (if d = length (dataHeap s) then x else lookupData s d)"
  by (auto simp: lookupData_def nth_append)

lemma lookupData_storeData:
  "lookupData (storeData d r s) d' =
     (if d' = d \<and> d < length (dataHeap s) then Some r else lookupData s d')"
  by (auto simp: lookupData_def storeData_def)

text \<open>
  C3. As long as object \<open>h\<close> has no extension record, \<open>get h False\<close> returns null and leaves
  the memory as it is, and a call of \<open>get\<close> for another object does not change that. A
  creating call \<open>get h True\<close> returns a record at an address that was not in use, and every
  later \<open>get\<close> for \<open>h\<close>, creating or not, returns that same record and leaves the memory as
  it is: one record per object.
\<close>

theorem get_create_idempotent:
  "declarativeData s h = None \<Longrightarrow>
     get h False s = (None, s) \<and>
     (h' \<noteq> h \<longrightarrow> get h False (snd (get h' c s)) = (None, snd (get h' c s))) \<and>
     (\<exists>d s'. get h True s = (Some d, s') \<and> lookupData s d = None \<and> lookupData s' d \<noteq> None \<and>
        (\<forall>c2. get h c2 s' = (Some d, s')))"
  by (auto simp: get_def Let_def lookupData_def nth_append split: option.splits)

theorem get_create_idempotent_witness:
  "declarativeData emptyStore 0 = None \<and>
   get 0 False emptyStore = (None, emptyStore) \<and>
   get 0 False (snd (get 1 True emptyStore)) = (None, snd (get 1 True emptyStore)) \<and>
   get 0 False (snd (get 0 True emptyStore)) = get 0 True emptyStore \<and>
   get 0 True (snd (get 0 True emptyStore)) = get 0 True emptyStore"
  using get_create_idempotent [of emptyStore 0 1 True]
  by (auto simp: emptyStore_def)

text \<open>
  C4, as the code has it. For an object \<open>h\<close> without extension record, \<open>get h True\<close>
  allocates a record at a new address, built by the default constructor: its \<open>context\<close> is
  null and so are both links of its context-list node. The record is stored in the
  object's back-pointer and returned. No context list changes and no other record changes.
\<close>

theorem get_create_allocates_unlinked:
  "declarativeData s h = None \<Longrightarrow>
     (\<exists>s'. get h True s = (Some (length (dataHeap s)), s') \<and>
        declarativeData s' h = Some (length (dataHeap s)) \<and>
        lookupData s' (length (dataHeap s)) = Some (QmlDeclarativeData_new None) \<and>
        context (QmlDeclarativeData_new None) = None \<and>
        nextContextObject (QmlDeclarativeData_new None) = None \<and>
        prevContextObject (QmlDeclarativeData_new None) = None \<and>
        contextObjects s' = contextObjects s \<and>
        (\<forall>d. d \<noteq> length (dataHeap s) \<longrightarrow> lookupData s' d = lookupData s d))"
  by (auto simp: get_def Let_def lookupData_def nth_append QmlDeclarativeData_new_def)

theorem get_create_allocates_unlinked_witness:
  "declarativeData emptyStore 3 = None \<and>
   fst (get 3 True emptyStore) = Some 0 \<and>
   declarativeData (snd (get 3 True emptyStore)) 3 = Some 0 \<and>
   lookupData (snd (get 3 True emptyStore)) 0 = Some (QmlDeclarativeData_new None) \<and>
   contextObjects (snd (get 3 True emptyStore)) = contextObjects emptyStore"
  using get_create_allocates_unlinked [of emptyStore 3]
  by (auto simp: emptyStore_def)

text \<open>
  The claim as stated fails: on the empty memory, with context 7 as the owning context of
  object 0, the creating call returns record 0 whose \<open>context\<close> and back-reference are
  null, and the object list of context 7 is still empty.
\<close>

theorem get_create_context_counterexample:
  "fst (get 0 True emptyStore) = Some 0 \<and>
   map_option context (lookupData (snd (get 0 True emptyStore)) 0) = Some None \<and>
   map_option prevContextObject (lookupData (snd (get 0 True emptyStore)) 0) = Some None \<and>
   contextList (snd (get 0 True emptyStore)) (ContextObjectsSlot 7) []"
  by (simp add: get_def emptyStore_def lookupData_def QmlDeclarativeData_new_def
      readContextSlot_def)


section \<open>Properties of the guard list\<close>

subsection \<open>Reading the memory after a write\<close>


lemma guardHeap_storeGuard [simp]:
  "guardHeap (storeGuard g r s) x = (if x = g then Some r else guardHeap s x)"
  by (simp add: storeGuard_def)

lemma lookupData_storeGuard [simp]: "lookupData (storeGuard g r s) d = lookupData s d"
  by (simp add: storeGuard_def lookupData_def)

lemma declarativeData_storeGuard [simp]:
  "declarativeData (storeGuard g r s) = declarativeData s"
  by (simp add: storeGuard_def)

lemma guardHeap_storeData [simp]: "guardHeap (storeData d r s) = guardHeap s"
  by (simp add: storeData_def)

lemma declarativeData_storeData [simp]:
  "declarativeData (storeData d r s) = declarativeData s"
  by (simp add: storeData_def)

lemma lookupData_storeData_valid [simp]:
  "lookupData s d = Some r0 \<Longrightarrow>
     lookupData (storeData d r s) d' = (if d' = d then Some r else lookupData s d')"
  by (auto simp: lookupData_def storeData_def split: if_splits)

lemma readGuardSlot_storeGuard [simp]:
  "readGuardSlot (storeGuard g r s) sl =
     (if sl = NextSlot g then Inr (guard_next r) else readGuardSlot s sl)"
  by (cases sl) (auto simp: readGuardSlot_def)

lemma readGuardSlot_storeData [simp]:
  "lookupData s d = Some r0 \<Longrightarrow>
     readGuardSlot (storeData d r s) sl =
       (if sl = GuardsSlot d then Inr (guards r) else readGuardSlot s sl)"
  by (cases sl) (auto simp: readGuardSlot_def)

lemma setPrev_Some: "guardHeap s g = Some r \<Longrightarrow>
  setPrev g v s = Inr (storeGuard g (r\<lparr>guard_prev := v\<rparr>) s)"
  by (simp add: setPrev_def)

lemma setNext_Some: "guardHeap s g = Some r \<Longrightarrow>
  setNext g v s = Inr (storeGuard g (r\<lparr>guard_next := v\<rparr>) s)"
  by (simp add: setNext_def)

subsection \<open>The back-pointer invariant\<close>

text \<open>The invariant in one sentence: a field holds guard \<open>x\<close> exactly when the \<open>prev\<close> of \<open>x\<close>
  names that field.\<close>

lemma guardInv_iff:
  "guardInv s \<longleftrightarrow>
     (\<forall>sl x. (readGuardSlot s sl = Inr (Some x)) =
        (\<exists>rx. guardHeap s x = Some rx \<and> guard_prev rx = Some sl))"
  unfolding guardInv_def prevHoldsSelf_def nextPointsBack_def headPointsBack_def
  apply (rule iffI)
   apply (intro allI iffI)
    apply (case_tac sl)
     apply (auto simp: readGuardSlot_def split: option.splits)[2]
   apply blast
  apply (intro conjI allI impI)
    apply blast
   apply (drule_tac x = "NextSlot g" in spec)
   apply (drule_tac x = n in spec)
   apply (simp add: readGuardSlot_def)
  apply (drule_tac x = "GuardsSlot d" in spec)
  apply (drule_tac x = g in spec)
  apply (simp add: readGuardSlot_def)
  done

lemma guardInv_prevD:
  "guardInv s \<Longrightarrow> guardHeap s x = Some rx \<Longrightarrow> guard_prev rx = Some sl \<Longrightarrow>
     readGuardSlot s sl = Inr (Some x)"
  unfolding guardInv_def prevHoldsSelf_def by blast

lemma guardInv_unique:
  assumes "guardInv s" and "guardHeap s x = Some rx" and "guard_prev rx = Some sl"
    and "guardHeap s y = Some ry" and "guard_prev ry = Some sl"
  shows "x = y"
  using guardInv_prevD [OF assms(1,2,3)] guardInv_prevD [OF assms(1,4,5)] by simp

lemma guardInv_nextD:
  assumes "guardInv s" and "guardHeap s a = Some ra"
    and "guardHeap s x = Some rx" and "guard_prev rx = Some (NextSlot a)"
  shows "guard_next ra = Some x"
  using guardInv_prevD [OF assms(1,3,4)] assms(2) by (simp add: readGuardSlot_def)

lemma guardInv_headD:
  assumes "guardInv s" and "lookupData s d = Some dr"
    and "guardHeap s x = Some rx" and "guard_prev rx = Some (GuardsSlot d)"
  shows "guards dr = Some x"
  using guardInv_prevD [OF assms(1,3,4)] assms(2) by (simp add: readGuardSlot_def)

lemma guardInv_nextE:
  assumes "guardInv s" and "guardHeap s a = Some ra" and "guard_next ra = Some x"
  shows "\<exists>rx. guardHeap s x = Some rx \<and> guard_prev rx = Some (NextSlot a)"
  using assms unfolding guardInv_def nextPointsBack_def by blast

lemma guardInv_headE:
  assumes "guardInv s" and "lookupData s d = Some dr" and "guards dr = Some x"
  shows "\<exists>rx. guardHeap s x = Some rx \<and> guard_prev rx = Some (GuardsSlot d)"
  using assms unfolding guardInv_def headPointsBack_def by blast

lemma guardInv_remGuard:
  assumes inv: "guardInv s" and g: "guardHeap s g = Some r" and p: "guard_prev r = Some sl"
  shows "\<exists>s'. remGuard g s = Inr s' \<and> guardInv s'"
proof -
  have sl: "readGuardSlot s sl = Inr (Some g)"
    using inv g p by (auto simp: guardInv_def prevHoldsSelf_def)
  note K = inv [unfolded guardInv_iff, rule_format]
  note U = guardInv_unique [OF inv]
  note N = guardInv_nextD [OF inv]
  note H = guardInv_headD [OF inv]
  note NE = guardInv_nextE [OF inv]
  note HE = guardInv_headE [OF inv]
  show ?thesis
  proof (cases "guard_next r")
    case None
    show ?thesis
    proof (cases sl)
      case (GuardsSlot d)
      then obtain dr where dr: "lookupData s d = Some dr" "guards dr = Some g"
        using sl by (auto simp: readGuardSlot_def split: option.splits)
      show ?thesis
        using g p None GuardsSlot dr
        apply (simp add: remGuard_def setPrevOfNext_def writeGuardSlot_def setNext_def setPrev_def)
        apply (simp_all add: guardInv_iff K)
        apply (intro allI conjI impI)
        apply (auto dest: N H U)
        done
    next
      case (NextSlot p)
      then obtain rp where rp: "guardHeap s p = Some rp" "guard_next rp = Some g"
        using sl by (auto simp: readGuardSlot_def split: option.splits)
      show ?thesis
        using g p None NextSlot rp
        apply (simp add: remGuard_def setPrevOfNext_def writeGuardSlot_def setNext_def setPrev_def)
        apply (simp_all add: guardInv_iff K)
        apply (intro allI conjI impI)
        apply (auto dest: N H U)
        done
    qed
  next
    case (Some n)
    then obtain rn where rn: "guardHeap s n = Some rn" "guard_prev rn = Some (NextSlot g)"
      using K [of "NextSlot g" n] g by (auto simp: readGuardSlot_def)
    have nn: "guard_next rn = None \<or>
        (\<exists>m rm. guard_next rn = Some m \<and> guardHeap s m = Some rm \<and>
           guard_prev rm = Some (NextSlot n))"
      using NE [OF rn(1)] by (cases "guard_next rn") auto
    show ?thesis
    proof (cases sl)
      case (GuardsSlot d)
      then obtain dr where dr: "lookupData s d = Some dr" "guards dr = Some g"
        using sl by (auto simp: readGuardSlot_def split: option.splits)
      show ?thesis
        using g p Some GuardsSlot dr rn nn
        apply (simp add: remGuard_def setPrevOfNext_def writeGuardSlot_def setNext_def setPrev_def)
        apply (simp_all add: guardInv_iff K)
        apply (intro allI conjI impI)
        apply (auto dest: N H U)
        done
    next
      case (NextSlot p)
      then obtain rp where rp: "guardHeap s p = Some rp" "guard_next rp = Some g"
        using sl by (auto simp: readGuardSlot_def split: option.splits)
      show ?thesis
        using g p Some NextSlot rp rn nn
        apply (simp add: remGuard_def setPrevOfNext_def writeGuardSlot_def setNext_def setPrev_def)
        apply (simp_all add: guardInv_iff K)
        apply (intro allI conjI impI)
        apply (auto dest: N H U)
        done
    qed
  qed
qed


lemma get_True_cases:
  assumes "hostValid s h"
  obtains d dr s1 where "get h True s = (Some d, s1)" and "lookupData s1 d = Some dr"
    and "declarativeData s1 h = Some d" and "guardHeap s1 = guardHeap s"
    and "guards dr = guardsHead s h"
    and "\<And>sl. readGuardSlot s1 sl =
           (if sl = GuardsSlot d \<and> declarativeData s h = None then Inr None
            else readGuardSlot s sl)"
    and "declarativeData s h = None \<longrightarrow> lookupData s d = None"
    and "\<forall>d0. declarativeData s h = Some d0 \<longrightarrow> d = d0"
    and "\<And>d'. d' \<noteq> d \<Longrightarrow> lookupData s1 d' = lookupData s d'"
proof (cases "declarativeData s h")
  case None
  let ?d = "length (dataHeap s)"
  let ?s1 = "s\<lparr>dataHeap := dataHeap s @ [Some (QmlDeclarativeData_new None)],
                declarativeData := (declarativeData s)(h := Some ?d)\<rparr>"
  have rd: "\<And>sl. readGuardSlot ?s1 sl =
           (if sl = GuardsSlot ?d \<and> declarativeData s h = None then Inr None
            else readGuardSlot s sl)"
    subgoal for sl
      by (cases sl)
        (auto simp: readGuardSlot_def lookupData_append_new QmlDeclarativeData_new_def None)
    done
  have nd: "lookupData s ?d = None" by (simp add: lookupData_def)
  show ?thesis
    by (rule that [of ?d ?s1 "QmlDeclarativeData_new None"])
      (use None rd nd in \<open>auto simp: get_def Let_def lookupData_append_new guardsHead_def
         QmlDeclarativeData_new_def\<close>)
next
  case (Some d)
  with assms obtain dr where "lookupData s d = Some dr" by (auto simp: hostValid_def)
  with Some show ?thesis
    by (intro that [of d s dr]) (auto simp: get_def guardsHead_def)
qed

lemma guardInv_get:
  assumes "guardInv s"
  shows "guardInv (snd (get h True s))"
proof (cases "declarativeData s h")
  case None
  have rd: "\<And>sl. readGuardSlot (snd (get h True s)) sl =
           (if sl = GuardsSlot (length (dataHeap s)) then Inr None else readGuardSlot s sl)"
    subgoal for sl
      by (cases sl)
        (auto simp: readGuardSlot_def lookupData_append_new QmlDeclarativeData_new_def None
          get_def Let_def)
    done
  have gh: "guardHeap (snd (get h True s)) = guardHeap s"
    using None by (simp add: get_def Let_def)
  have nd: "lookupData s (length (dataHeap s)) = None" by (simp add: lookupData_def)
  have no: "\<not> (\<exists>rx. guardHeap s x = Some rx \<and>
      guard_prev rx = Some (GuardsSlot (length (dataHeap s))))" for x
    using guardInv_prevD [OF assms, of x _ "GuardsSlot (length (dataHeap s))"] nd
    by (auto simp: readGuardSlot_def)
  show ?thesis
    unfolding guardInv_iff rd gh
    using assms [unfolded guardInv_iff] no by auto
next
  case (Some d)
  then show ?thesis using assms by (simp add: get_def)
qed

lemma guardInv_addGuard:
  assumes inv: "guardInv s" and g: "guardHeap s g = Some r"
    and un: "guard_next r = None" "guard_prev r = None"
    and o: "guard_o r = Some h" and hv: "hostValid s h"
  shows "\<exists>s'. addGuard g s = Inr s' \<and> guardInv s'"
proof -
  obtain d dr s1 where gt: "get h True s = (Some d, s1)" and dr: "lookupData s1 d = Some dr"
    and gh: "guardHeap s1 = guardHeap s"
    using get_True_cases [OF hv] by metis
  have inv1: "guardInv s1" using guardInv_get [OF inv, of h] gt by simp
  have g1: "guardHeap s1 g = Some r" using g gh by simp
  note K = inv1 [unfolded guardInv_iff, rule_format]
  note U = guardInv_unique [OF inv1]
  note N = guardInv_nextD [OF inv1]
  note H = guardInv_headD [OF inv1]
  note NE = guardInv_nextE [OF inv1]
  note HE = guardInv_headE [OF inv1]
  show ?thesis
  proof (cases "guards dr")
    case None
    show ?thesis
      using g o gt dr g1 un None
      apply (simp add: addGuard_def setPrevOfNext_def writeGuardSlot_def setNext_def setPrev_def)
      apply (simp_all add: guardInv_iff K)
      apply (intro allI conjI impI)
      apply (auto dest: N H U)
      done
  next
    case (Some n)
    then obtain rn where rn: "guardHeap s1 n = Some rn" "guard_prev rn = Some (GuardsSlot d)"
      using HE [OF dr] by blast
    have ng: "n \<noteq> g" using rn g1 un by auto
    have nn: "guard_next rn = None \<or>
        (\<exists>m rm. guard_next rn = Some m \<and> guardHeap s1 m = Some rm \<and>
           guard_prev rm = Some (NextSlot n))"
      using NE [OF rn(1)] by (cases "guard_next rn") auto
    show ?thesis
      using g o gt dr g1 un Some rn ng nn
      apply (simp add: addGuard_def setPrevOfNext_def writeGuardSlot_def setNext_def setPrev_def)
      apply (simp_all add: guardInv_iff K)
      apply (intro allI conjI impI)
      apply (auto dest: N H U)
      done
  qed
qed


lemma guardPrevOf_storeGuard [simp]:
  "guardPrevOf (storeGuard g r s) x = (if x = g then guard_prev r else guardPrevOf s x)"
  by (simp add: guardPrevOf_def)

lemma guardPrevOf_storeData [simp]: "guardPrevOf (storeData d r s) x = guardPrevOf s x"
  by (simp add: guardPrevOf_def)

lemma target_storeGuard [simp]:
  "target (storeGuard g r s) x = (if x = g then guard_o r else target s x)"
  by (simp add: target_def)

lemma target_storeData [simp]: "target (storeData d r s) x = target s x"
  by (simp add: target_def)

lemma rest_storeGuard [simp]:
  "(storeGuard g r s)\<lparr>guardHeap := G, dataHeap := D\<rparr> = s\<lparr>guardHeap := G, dataHeap := D\<rparr>"
  by (simp add: storeGuard_def)

lemma rest_storeData [simp]:
  "(storeData d r s)\<lparr>guardHeap := G, dataHeap := D\<rparr> = s\<lparr>guardHeap := G, dataHeap := D\<rparr>"
  by (simp add: storeData_def)

subsection \<open>What \<open>remGuard\<close> and \<open>addGuard\<close> change\<close>

text \<open>
  The memory after \<open>remGuard\<close> on a guard that is linked at field \<open>slg\<close>, read through the
  fields and the back-references: \<open>slg\<close> now holds the old \<open>next\<close> of the guard, whose
  \<open>prev\<close> names \<open>slg\<close>; the guard has neither \<open>next\<close> nor \<open>prev\<close>; nothing else changes.
\<close>

lemma remGuard_effect:
  assumes g: "guardHeap s g = Some r" and p: "guard_prev r = Some slg"
    and rd: "readGuardSlot s slg = Inr (Some g)"
    and nx: "\<forall>n. guard_next r = Some n \<longrightarrow> guardHeap s n \<noteq> None \<and> n \<noteq> g \<and> slg \<noteq> NextSlot n"
    and na: "slg \<noteq> NextSlot g"
  shows "\<exists>s'. remGuard g s = Inr s' \<and>
      (\<forall>sl. readGuardSlot s' sl =
         (if sl = slg then Inr (guard_next r)
          else if sl = NextSlot g then Inr None else readGuardSlot s sl)) \<and>
      (\<forall>x. guardPrevOf s' x =
         (if x = g then None
          else if guard_next r = Some x then Some slg else guardPrevOf s x)) \<and>
      (\<forall>x. target s' x = target s x) \<and>
      (\<forall>d. lookupData s' d =
         (if slg = GuardsSlot d then map_option (\<lambda>dr. dr\<lparr>guards := guard_next r\<rparr>) (lookupData s d)
          else lookupData s d)) \<and>
      s'\<lparr>guardHeap := guardHeap s, dataHeap := dataHeap s\<rparr> = s"
proof (cases slg)
  case (GuardsSlot d)
  then obtain dr where dr: "lookupData s d = Some dr" "guards dr = Some g"
    using rd by (auto simp: readGuardSlot_def split: option.splits)
  show ?thesis
  proof (cases "guard_next r")
    case None
    show ?thesis
      using g p None GuardsSlot dr
      apply (simp add: remGuard_def setPrevOfNext_def writeGuardSlot_def setNext_def setPrev_def)
      apply (auto simp: target_def guardPrevOf_def readGuardSlot_def)
      done
  next
    case (Some n)
    then obtain rn where rn: "guardHeap s n = Some rn" and ng: "n \<noteq> g" using nx by auto
    show ?thesis
      using g p Some GuardsSlot dr rn ng
      apply (simp add: remGuard_def setPrevOfNext_def writeGuardSlot_def setNext_def setPrev_def)
      apply (auto simp: target_def guardPrevOf_def readGuardSlot_def)
      done
  qed
next
  case (NextSlot q)
  then obtain rq where rq: "guardHeap s q = Some rq" "guard_next rq = Some g"
    using rd by (auto simp: readGuardSlot_def split: option.splits)
  have qg: "q \<noteq> g" using na NextSlot by simp
  show ?thesis
  proof (cases "guard_next r")
    case None
    show ?thesis
      using g p None NextSlot rq qg
      apply (simp add: remGuard_def setPrevOfNext_def writeGuardSlot_def setNext_def setPrev_def)
      apply (auto simp: target_def guardPrevOf_def readGuardSlot_def)
      done
  next
    case (Some n)
    then obtain rn where rn: "guardHeap s n = Some rn" and ng: "n \<noteq> g" and nq: "n \<noteq> q"
      using nx NextSlot by auto
    show ?thesis
      using g p Some NextSlot rq qg rn ng nq
      apply (simp add: remGuard_def setPrevOfNext_def writeGuardSlot_def setNext_def setPrev_def)
      apply (auto simp: target_def guardPrevOf_def readGuardSlot_def)
      done
  qed
qed


text \<open>
  The memory after \<open>addGuard\<close>: the \<open>guards\<close> field of the record of the target holds the
  guard, the \<open>next\<close> of the guard is the old head, whose \<open>prev\<close> names that \<open>next\<close> field;
  nothing else changes but the record created on demand.
\<close>

lemma addGuard_effect:
  assumes g: "guardHeap s g = Some r" and o: "guard_o r = Some h" and hv: "hostValid s h"
    and nh: "guardsHead s h \<noteq> Some g"
    and hd: "\<forall>n. guardsHead s h = Some n \<longrightarrow> guardHeap s n \<noteq> None"
  shows "\<exists>s' d. addGuard g s = Inr s' \<and>
      declarativeData s' = (declarativeData s)(h := Some d) \<and>
      (declarativeData s h = None \<longrightarrow> lookupData s d = None) \<and>
      (\<forall>d0. declarativeData s h = Some d0 \<longrightarrow> d = d0) \<and>
      (\<forall>sl. readGuardSlot s' sl =
         (if sl = GuardsSlot d then Inr (Some g)
          else if sl = NextSlot g then Inr (guardsHead s h) else readGuardSlot s sl)) \<and>
      (\<forall>x. guardPrevOf s' x =
         (if x = g then Some (GuardsSlot d)
          else if guardsHead s h = Some x then Some (NextSlot g) else guardPrevOf s x)) \<and>
      (\<forall>x. target s' x = target s x) \<and>
      (\<forall>d'. d' \<noteq> d \<longrightarrow> lookupData s' d' = lookupData s d') \<and>
      lookupData s' d =
        Some ((case lookupData s d of None \<Rightarrow> QmlDeclarativeData_new None | Some dr \<Rightarrow> dr)
              \<lparr>guards := Some g\<rparr>) \<and>
      bindingHeap s' = bindingHeap s \<and> contextObjects s' = contextObjects s \<and>
      signals s' = signals s"
proof -
  obtain d dr s1 where gt: "get h True s = (Some d, s1)" and dr: "lookupData s1 d = Some dr"
    and dd: "declarativeData s1 h = Some d" and gh: "guardHeap s1 = guardHeap s"
    and hd1: "guards dr = guardsHead s h"
    and rd1: "\<And>sl. readGuardSlot s1 sl =
           (if sl = GuardsSlot d \<and> declarativeData s h = None then Inr None
            else readGuardSlot s sl)"
    and fr: "declarativeData s h = None \<longrightarrow> lookupData s d = None"
    and ex: "\<forall>d0. declarativeData s h = Some d0 \<longrightarrow> d = d0"
    and ot: "\<And>d'. d' \<noteq> d \<Longrightarrow> lookupData s1 d' = lookupData s d'"
    by (rule get_True_cases [OF hv]) (rule that)
  have g1: "guardHeap s1 g = Some r" using g gh by simp
  have t1: "\<And>x. target s1 x = target s x" by (simp add: target_def gh)
  have p1: "\<And>x. guardPrevOf s1 x = guardPrevOf s x" by (simp add: guardPrevOf_def gh)
  have dd1: "declarativeData s1 = (declarativeData s)(h := Some d)"
    using gt dd by (auto simp: get_def Let_def split: option.splits if_splits)
  have rest: "bindingHeap s1 = bindingHeap s \<and> contextObjects s1 = contextObjects s \<and>
      signals s1 = signals s"
    using gt by (auto simp: get_def Let_def split: option.splits if_splits)
  have dr0: "dr = (case lookupData s d of None \<Rightarrow> QmlDeclarativeData_new None | Some dr \<Rightarrow> dr)"
  proof (cases "declarativeData s h")
    case None
    then show ?thesis using gt dr fr
      by (auto simp: get_def Let_def lookupData_append_new)
  next
    case (Some d0)
    then show ?thesis using gt dr by (auto simp: get_def)
  qed
  have slot: "readGuardSlot s (GuardsSlot d) = Inr (guards dr) \<or> declarativeData s h = None"
    using rd1 [of "GuardsSlot d"] dr by (auto simp: readGuardSlot_def split: if_splits)
  have dsl: "declarativeData s h = None \<Longrightarrow> readGuardSlot s (GuardsSlot d) = Inl InvalidDereference"
    using fr by (simp add: readGuardSlot_def)
  let ?concl = "\<lambda>s'. declarativeData s' = (declarativeData s)(h := Some d) \<and>
      (declarativeData s h = None \<longrightarrow> lookupData s d = None) \<and>
      (\<forall>d0. declarativeData s h = Some d0 \<longrightarrow> d = d0) \<and>
      (\<forall>sl. readGuardSlot s' sl =
         (if sl = GuardsSlot d then Inr (Some g)
          else if sl = NextSlot g then Inr (guardsHead s h) else readGuardSlot s sl)) \<and>
      (\<forall>x. guardPrevOf s' x =
         (if x = g then Some (GuardsSlot d)
          else if guardsHead s h = Some x then Some (NextSlot g) else guardPrevOf s x)) \<and>
      (\<forall>x. target s' x = target s x) \<and>
      (\<forall>d'. d' \<noteq> d \<longrightarrow> lookupData s' d' = lookupData s d') \<and>
      lookupData s' d =
        Some ((case lookupData s d of None \<Rightarrow> QmlDeclarativeData_new None | Some dr \<Rightarrow> dr)
              \<lparr>guards := Some g\<rparr>) \<and>
      bindingHeap s' = bindingHeap s \<and> contextObjects s' = contextObjects s \<and>
      signals s' = signals s"
  have rest_g: "\<And>x rx t. bindingHeap (storeGuard x rx t) = bindingHeap t \<and>
      contextObjects (storeGuard x rx t) = contextObjects t \<and>
      signals (storeGuard x rx t) = signals t"
    by (simp add: storeGuard_def)
  have rest_d: "\<And>x rx t. bindingHeap (storeData x rx t) = bindingHeap t \<and>
      contextObjects (storeData x rx t) = contextObjects t \<and>
      signals (storeData x rx t) = signals t"
    by (simp add: storeData_def)
  show ?thesis
  proof (cases "guards dr")
    case None
    define s2 where "s2 = storeGuard g (r\<lparr>guard_next := None\<rparr>) s1"
    define s4 where "s4 = storeData d (dr\<lparr>guards := Some g\<rparr>) s2"
    define s5 where "s5 = storeGuard g (r\<lparr>guard_next := None, guard_prev := Some (GuardsSlot d)\<rparr>) s4"
    have l2: "lookupData s2 d = Some dr" by (simp add: s2_def dr)
    note rs = readGuardSlot_storeData [OF l2, unfolded s2_def]
    note ls = lookupData_storeData_valid [OF l2, unfolded s2_def]
    have a: "addGuard g s = Inr s5"
      unfolding s5_def s4_def s2_def
      using g o gt dr g1 None
      by (simp add: addGuard_def setPrevOfNext_def writeGuardSlot_def setNext_def setPrev_def)
    have c: "?concl s5"
      apply (intro conjI allI impI)
      subgoal by (simp add: s5_def s4_def s2_def dd1)
      subgoal using fr by simp
      subgoal using ex by simp
      subgoal for sl
        using None hd1 dsl
        by (cases "declarativeData s h") (auto simp: s5_def s4_def rs s2_def rd1)
      subgoal for x
        using None hd1 by (simp add: s5_def s4_def s2_def p1)
      subgoal for x
        using o g by (simp add: s5_def s4_def s2_def t1) (simp add: target_def)
      subgoal for d'
        by (simp add: s5_def s4_def s2_def ls ot)
      subgoal
        by (simp add: s5_def s4_def s2_def ls dr0 [symmetric])
      subgoal by (simp add: s5_def s4_def s2_def rest_g rest_d rest)
      subgoal by (simp add: s5_def s4_def s2_def rest_g rest_d rest)
      subgoal by (simp add: s5_def s4_def s2_def rest_g rest_d rest)
      done
    show ?thesis by (rule exI [where x = s5], rule exI [where x = d], rule conjI [OF a c])
  next
    case (Some n)
    then obtain rn where rn: "guardHeap s1 n = Some rn" and ng: "n \<noteq> g"
      using hd nh hd1 gh by auto
    define s2 where "s2 = storeGuard g (r\<lparr>guard_next := Some n\<rparr>) s1"
    define s3 where "s3 = storeGuard n (rn\<lparr>guard_prev := Some (NextSlot g)\<rparr>) s2"
    define s4 where "s4 = storeData d (dr\<lparr>guards := Some g\<rparr>) s3"
    define s5 where "s5 = storeGuard g (r\<lparr>guard_next := Some n, guard_prev := Some (GuardsSlot d)\<rparr>) s4"
    have l3: "lookupData s3 d = Some dr" by (simp add: s3_def s2_def dr)
    note rs = readGuardSlot_storeData [OF l3, unfolded s3_def s2_def]
    note ls = lookupData_storeData_valid [OF l3, unfolded s3_def s2_def]
    have a: "addGuard g s = Inr s5"
      unfolding s5_def s4_def s3_def s2_def
      using g o gt dr g1 Some rn ng
      by (simp add: addGuard_def setPrevOfNext_def writeGuardSlot_def setNext_def setPrev_def)
    have hn: "guardsHead s h = Some n" using Some hd1 by simp
    have nsl: "readGuardSlot s1 (NextSlot n) = Inr (guard_next rn)"
      using rn by (simp add: readGuardSlot_def)
    have c: "?concl s5"
      apply (intro conjI allI impI)
      subgoal by (simp add: s5_def s4_def s3_def s2_def dd1)
      subgoal using fr by simp
      subgoal using ex by simp
      subgoal for sl
        using hn dsl ng nsl
        by (cases "declarativeData s h")
          (auto simp: s5_def s4_def rs s3_def s2_def rd1)
      subgoal for x
        using hn ng by (simp add: s5_def s4_def s3_def s2_def p1)
      subgoal for x
        using o g rn ng gh
        by (simp add: s5_def s4_def s3_def s2_def t1) (auto simp: target_def)
      subgoal for d'
        by (simp add: s5_def s4_def s3_def s2_def ls ot)
      subgoal
        by (simp add: s5_def s4_def s3_def s2_def ls dr0 [symmetric])
      subgoal by (simp add: s5_def s4_def s3_def s2_def rest_g rest_d rest)
      subgoal by (simp add: s5_def s4_def s3_def s2_def rest_g rest_d rest)
      subgoal by (simp add: s5_def s4_def s3_def s2_def rest_g rest_d rest)
      done
    show ?thesis by (rule exI [where x = s5], rule exI [where x = d], rule conjI [OF a c])
  qed
qed


subsection \<open>Registration links at the head\<close>

text \<open>
  C5. For a guard \<open>g\<close> with target \<open>h\<close> that is not already the head of the list of \<open>h\<close>,
  \<open>addGuard\<close> succeeds; afterwards \<open>h\<close> has an extension record \<open>d\<close> (the record it had, or one
  created on demand at an address that was not in use), the head of the list of \<open>d\<close> is \<open>g\<close>,
  the \<open>next\<close> of \<open>g\<close> is the previous head, the \<open>prev\<close> of \<open>g\<close> names the \<open>guards\<close> field of
  \<open>d\<close>, and the \<open>prev\<close> of the previous head names the \<open>next\<close> field of \<open>g\<close>. The memory is
  sound where the code reads it: the back-pointer of \<open>h\<close>, if set, and the previous head,
  if any, are addresses in use.
\<close>

theorem addGuard_links_at_head:
  assumes "guardHeap s g = Some r" and "guard_o r = Some h" and "hostValid s h"
    and "guardsHead s h \<noteq> Some g"
    and "\<forall>n. guardsHead s h = Some n \<longrightarrow> guardHeap s n \<noteq> None"
  shows "\<exists>s' d. addGuard g s = Inr s' \<and> declarativeData s' h = Some d \<and>
      (declarativeData s h = None \<longrightarrow> lookupData s d = None) \<and>
      (\<forall>d0. declarativeData s h = Some d0 \<longrightarrow> d = d0) \<and>
      guardsHead s' h = Some g \<and>
      readGuardSlot s' (GuardsSlot d) = Inr (Some g) \<and>
      readGuardSlot s' (NextSlot g) = Inr (guardsHead s h) \<and>
      guardPrevOf s' g = Some (GuardsSlot d) \<and>
      (\<forall>n. guardsHead s h = Some n \<longrightarrow> guardPrevOf s' n = Some (NextSlot g))"
proof -
  from addGuard_effect [OF assms] obtain s' d where
    eff: "addGuard g s = Inr s' \<and>
      declarativeData s' = (declarativeData s)(h := Some d) \<and>
      (declarativeData s h = None \<longrightarrow> lookupData s d = None) \<and>
      (\<forall>d0. declarativeData s h = Some d0 \<longrightarrow> d = d0) \<and>
      (\<forall>sl. readGuardSlot s' sl =
         (if sl = GuardsSlot d then Inr (Some g)
          else if sl = NextSlot g then Inr (guardsHead s h) else readGuardSlot s sl)) \<and>
      (\<forall>x. guardPrevOf s' x =
         (if x = g then Some (GuardsSlot d)
          else if guardsHead s h = Some x then Some (NextSlot g) else guardPrevOf s x)) \<and>
      (\<forall>x. target s' x = target s x) \<and>
      (\<forall>d'. d' \<noteq> d \<longrightarrow> lookupData s' d' = lookupData s d') \<and>
      lookupData s' d =
        Some ((case lookupData s d of None \<Rightarrow> QmlDeclarativeData_new None | Some dr \<Rightarrow> dr)
              \<lparr>guards := Some g\<rparr>) \<and>
      bindingHeap s' = bindingHeap s \<and> contextObjects s' = contextObjects s \<and>
      signals s' = signals s"
    by (elim exE) (rule that)
  have a: "addGuard g s = Inr s'" using eff by (rule conjunct1)
  have dd: "declarativeData s' = (declarativeData s)(h := Some d)" using eff by (elim conjE)
  have fr: "declarativeData s h = None \<longrightarrow> lookupData s d = None" using eff by (elim conjE)
  have ex: "\<forall>d0. declarativeData s h = Some d0 \<longrightarrow> d = d0" using eff by (elim conjE)
  have R: "\<forall>sl. readGuardSlot s' sl =
         (if sl = GuardsSlot d then Inr (Some g)
          else if sl = NextSlot g then Inr (guardsHead s h) else readGuardSlot s sl)"
    using eff by (elim conjE)
  have P: "\<forall>x. guardPrevOf s' x =
         (if x = g then Some (GuardsSlot d)
          else if guardsHead s h = Some x then Some (NextSlot g) else guardPrevOf s x)"
    using eff by (elim conjE)
  have L: "lookupData s' d =
        Some ((case lookupData s d of None \<Rightarrow> QmlDeclarativeData_new None | Some dr \<Rightarrow> dr)
              \<lparr>guards := Some g\<rparr>)"
    using eff by (elim conjE)
  have 1: "declarativeData s' h = Some d" by (simp add: dd)
  have 2: "guardsHead s' h = Some g" by (simp add: guardsHead_def dd L)
  have 3: "readGuardSlot s' (GuardsSlot d) = Inr (Some g)" by (simp add: R)
  have 4: "readGuardSlot s' (NextSlot g) = Inr (guardsHead s h)" by (simp add: R)
  have 5: "guardPrevOf s' g = Some (GuardsSlot d)" by (simp add: P)
  have 6: "\<forall>n. guardsHead s h = Some n \<longrightarrow> guardPrevOf s' n = Some (NextSlot g)"
    using assms(4) by (auto simp: P)
  show ?thesis
    by (rule exI [where x = s'], rule exI [where x = d]) (intro conjI a 1 fr ex 2 3 4 5 6)
qed


theorem addGuard_links_at_head_witness:
  "guardsHead twoGuardStore 0 = Some 1 \<and>
   (\<exists>s'. addGuard 2 twoGuardStore = Inr s' \<and> declarativeData s' 0 = Some 0 \<and>
      guardsHead s' 0 = Some 2 \<and>
      readGuardSlot s' (NextSlot 2) = Inr (Some 1) \<and>
      guardPrevOf s' 2 = Some (GuardsSlot 0) \<and>
      guardPrevOf s' 1 = Some (NextSlot 2))"
proof -
  have h: "guardsHead twoGuardStore 0 = Some 1"
    by (simp add: guardsHead_def twoGuardStore_def lookupData_def)
  have "\<exists>s' d. addGuard 2 twoGuardStore = Inr s' \<and> declarativeData s' 0 = Some d \<and>
      (declarativeData twoGuardStore 0 = None \<longrightarrow> lookupData twoGuardStore d = None) \<and>
      (\<forall>d0. declarativeData twoGuardStore 0 = Some d0 \<longrightarrow> d = d0) \<and>
      guardsHead s' 0 = Some 2 \<and>
      readGuardSlot s' (GuardsSlot d) = Inr (Some 2) \<and>
      readGuardSlot s' (NextSlot 2) = Inr (guardsHead twoGuardStore 0) \<and>
      guardPrevOf s' 2 = Some (GuardsSlot d) \<and>
      (\<forall>n. guardsHead twoGuardStore 0 = Some n \<longrightarrow> guardPrevOf s' n = Some (NextSlot 2))"
    by (rule addGuard_links_at_head [where r = "newGuard 0"])
      (simp_all add: h, simp_all add: twoGuardStore_def newGuard_def hostValid_def lookupData_def)
  then obtain s' d where
    e: "addGuard 2 twoGuardStore = Inr s' \<and> declarativeData s' 0 = Some d \<and>
      (declarativeData twoGuardStore 0 = None \<longrightarrow> lookupData twoGuardStore d = None) \<and>
      (\<forall>d0. declarativeData twoGuardStore 0 = Some d0 \<longrightarrow> d = d0) \<and>
      guardsHead s' 0 = Some 2 \<and>
      readGuardSlot s' (GuardsSlot d) = Inr (Some 2) \<and>
      readGuardSlot s' (NextSlot 2) = Inr (guardsHead twoGuardStore 0) \<and>
      guardPrevOf s' 2 = Some (GuardsSlot d) \<and>
      (\<forall>n. guardsHead twoGuardStore 0 = Some n \<longrightarrow> guardPrevOf s' n = Some (NextSlot 2))"
    by (elim exE) (rule that)
  have d0: "declarativeData twoGuardStore 0 = Some 0" by (simp add: twoGuardStore_def)
  from e d0 have d: "d = 0" by simp
  from e h d show ?thesis by simp
qed

subsection \<open>The invariant is preserved\<close>

text \<open>
  C8. \<open>guardInv\<close> says, of every guard of the memory: the field named by its \<open>prev\<close> holds
  the guard itself (\<open>*g.prev == g\<close>); its \<open>next\<close>, if present, has its \<open>prev\<close> naming that
  \<open>next\<close> field; and the head of a record's list has its \<open>prev\<close> naming the record's
  \<open>guards\<close> field. \<open>addGuard\<close> on a guard that is in no list and \<open>remGuard\<close> on a guard that
  is in one both succeed and leave a memory in which the invariant holds again, for every
  guard.
\<close>

theorem back_pointer_invariant_preserved:
  assumes "guardInv s" and "guardHeap s g = Some r"
  shows "(guard_next r = None \<and> guard_prev r = None \<and>
            (\<exists>h. guard_o r = Some h \<and> hostValid s h) \<longrightarrow>
          (\<exists>s'. addGuard g s = Inr s' \<and> guardInv s')) \<and>
         (guard_prev r \<noteq> None \<longrightarrow> (\<exists>s'. remGuard g s = Inr s' \<and> guardInv s'))"
  using guardInv_addGuard [OF assms] guardInv_remGuard [OF assms] by auto

lemma guardInv_twoGuardStore: "guardInv twoGuardStore"
  unfolding guardInv_iff
  apply (intro allI)
  subgoal for sl x
    by (cases sl) (auto simp: readGuardSlot_def twoGuardStore_def lookupData_def newGuard_def
        QmlDeclarativeData_new_def split: if_splits)
  done

theorem back_pointer_invariant_preserved_witness:
  "guardInv twoGuardStore \<and>
   (\<exists>s'. addGuard 2 twoGuardStore = Inr s' \<and> guardInv s') \<and>
   (\<exists>s'. remGuard 1 twoGuardStore = Inr s' \<and> guardInv s')"
  using back_pointer_invariant_preserved [OF guardInv_twoGuardStore, of 2 "newGuard 0"]
    back_pointer_invariant_preserved [OF guardInv_twoGuardStore, of 1
      "\<lparr> guard_o = Some 0, guard_next = None, guard_prev = Some (GuardsSlot 0) \<rparr>"]
  by (simp add: guardInv_twoGuardStore)
    (simp add: twoGuardStore_def newGuard_def hostValid_def lookupData_def)


subsection \<open>Guard lists as sequences\<close>

text \<open>The sequence of a list is determined by the field it starts at; a list has no
  guard twice and does not run through the field it starts at.\<close>

lemma guardList_unique:
  "guardList s sl gs \<Longrightarrow> guardList s sl gs' \<Longrightarrow> gs = gs'"
proof (induction gs arbitrary: sl gs')
  case Nil
  then show ?case by (cases gs') (auto simp: linkedAt_def)
next
  case (Cons g gs)
  then show ?case by (cases gs') (auto simp: linkedAt_def)
qed

lemma lastSlot_append: "lastSlot sl (xs @ ys) = lastSlot (lastSlot sl xs) ys"
  by (induction xs arbitrary: sl) auto

lemma guardList_append:
  "guardList s sl (xs @ ys) \<longleftrightarrow> guardPath s sl xs \<and> guardList s (lastSlot sl xs) ys"
  by (induction xs arbitrary: sl) auto

lemma guardList_head_not_in_tail:
  assumes "guardList s (NextSlot g) gs"
  shows "g \<notin> set gs"
proof
  assume "g \<in> set gs"
  then obtain as bs where gs: "gs = as @ g # bs" by (auto simp: in_set_conv_decomp)
  then have "gs = (as @ [g]) @ bs" by simp
  with assms have "guardList s (lastSlot (NextSlot g) (as @ [g])) bs"
    by (simp only: guardList_append)
  then have "guardList s (NextSlot g) bs" by (simp add: lastSlot_append)
  with assms have "gs = bs" by (rule guardList_unique)
  with gs show False by simp
qed

lemma guardList_distinct: "guardList s sl gs \<Longrightarrow> distinct gs"
  by (induction gs arbitrary: sl) (auto dest: guardList_head_not_in_tail)

lemma guardList_slot_outside:
  "guardList s sl gs \<Longrightarrow> x \<in> set gs \<Longrightarrow> sl \<noteq> NextSlot x"
  using guardList_head_not_in_tail by blast

lemma guardList_cong:
  assumes "\<And>x. x \<in> set gs \<Longrightarrow> guardPrevOf s' x = guardPrevOf s x"
    and "readGuardSlot s' sl = readGuardSlot s sl"
    and "\<And>x. x \<in> set gs \<Longrightarrow> readGuardSlot s' (NextSlot x) = readGuardSlot s (NextSlot x)"
  shows "guardList s' sl gs = guardList s sl gs"
  using assms by (induction gs arbitrary: sl) (auto simp: linkedAt_def)

lemma guardPath_cong:
  assumes "\<And>x. x \<in> set gs \<Longrightarrow> guardPrevOf s' x = guardPrevOf s x"
    and "gs \<noteq> [] \<Longrightarrow> readGuardSlot s' sl = readGuardSlot s sl"
    and "\<And>x. x \<in> set (butlast gs) \<Longrightarrow>
           readGuardSlot s' (NextSlot x) = readGuardSlot s (NextSlot x)"
  shows "guardPath s' sl gs = guardPath s sl gs"
  using assms
proof (induction gs arbitrary: sl)
  case Nil
  then show ?case by simp
next
  case (Cons g gs)
  have "guardPath s' (NextSlot g) gs = guardPath s (NextSlot g) gs"
  proof (rule Cons.IH)
    show "\<And>x. x \<in> set gs \<Longrightarrow> guardPrevOf s' x = guardPrevOf s x" using Cons.prems(1) by simp
    show "gs \<noteq> [] \<Longrightarrow> readGuardSlot s' (NextSlot g) = readGuardSlot s (NextSlot g)"
      using Cons.prems(3) [of g] by (cases gs) auto
    show "\<And>x. x \<in> set (butlast gs) \<Longrightarrow>
           readGuardSlot s' (NextSlot x) = readGuardSlot s (NextSlot x)"
      using Cons.prems(3) by (cases gs) auto
  qed
  then show ?case using Cons.prems(1,2) by (simp add: linkedAt_def)
qed

lemma lastSlot_cases: "lastSlot sl xs = (if xs = [] then sl else NextSlot (last xs))"
  by (induction xs arbitrary: sl) auto


lemma guardList_read_head:
  "guardList s sl gs \<Longrightarrow>
     readGuardSlot s sl = Inr (case gs of [] \<Rightarrow> None | n # _ \<Rightarrow> Some n)"
  by (cases gs) (auto simp: linkedAt_def)

text \<open>\<open>remGuard\<close> on a guard of a list takes exactly this guard out of the sequence.\<close>

lemma remGuard_in_list:
  assumes gl: "guardList s sl (as @ g # bs)"
  shows "\<exists>s' r. remGuard g s = Inr s' \<and> guardHeap s g = Some r \<and>
      guard_next r = (case bs of [] \<Rightarrow> None | n # _ \<Rightarrow> Some n) \<and>
      guardList s' sl (as @ bs) \<and>
      (\<forall>sl'. readGuardSlot s' sl' =
         (if sl' = lastSlot sl as then Inr (guard_next r)
          else if sl' = NextSlot g then Inr None else readGuardSlot s sl')) \<and>
      (\<forall>x. guardPrevOf s' x =
         (if x = g then None
          else if guard_next r = Some x then Some (lastSlot sl as) else guardPrevOf s x)) \<and>
      (\<forall>x. target s' x = target s x) \<and>
      (\<forall>d. lookupData s' d =
         (if lastSlot sl as = GuardsSlot d
          then map_option (\<lambda>dr. dr\<lparr>guards := guard_next r\<rparr>) (lookupData s d)
          else lookupData s d)) \<and>
      s'\<lparr>guardHeap := guardHeap s, dataHeap := dataHeap s\<rparr> = s"
proof -
  let ?slg = "lastSlot sl as"
  let ?nx = "case bs of [] \<Rightarrow> None | n # _ \<Rightarrow> Some n"
  have pa: "guardPath s sl as" and la: "linkedAt s ?slg g" and tl: "guardList s (NextSlot g) bs"
    using gl by (simp_all add: guardList_append)
  have dist: "distinct (as @ g # bs)" using gl by (rule guardList_distinct)
  have out: "\<And>x. x \<in> set (as @ g # bs) \<Longrightarrow> sl \<noteq> NextSlot x"
    using gl by (rule guardList_slot_outside)
  obtain r where r: "guardHeap s g = Some r" and p: "guard_prev r = Some ?slg"
    using la by (auto simp: linkedAt_def guardPrevOf_def split: option.splits)
  have rd: "readGuardSlot s ?slg = Inr (Some g)" using la by (simp add: linkedAt_def)
  have nxt: "guard_next r = ?nx"
    using guardList_read_head [OF tl] r by (simp add: readGuardSlot_def)
  have slg_out: "?slg \<noteq> NextSlot x" if "x \<in> set (g # bs)" for x
  proof (cases "as = []")
    case True
    then show ?thesis using out [of x] that by simp
  next
    case False
    then have "last as \<in> set as" by simp
    then have "last as \<noteq> x" using dist that by auto
    then show ?thesis using False by (simp add: lastSlot_cases)
  qed
  have nx: "\<forall>n. guard_next r = Some n \<longrightarrow> guardHeap s n \<noteq> None \<and> n \<noteq> g \<and> ?slg \<noteq> NextSlot n"
  proof (intro allI impI)
    fix n assume "guard_next r = Some n"
    with nxt obtain bs' where bs: "bs = n # bs'" by (cases bs) auto
    with tl have "guardPrevOf s n = Some (NextSlot g)" by (simp add: linkedAt_def)
    then have "guardHeap s n \<noteq> None" by (auto simp: guardPrevOf_def split: option.splits)
    moreover have "n \<noteq> g" using dist bs by auto
    moreover have "?slg \<noteq> NextSlot n" using slg_out [of n] bs by simp
    ultimately show "guardHeap s n \<noteq> None \<and> n \<noteq> g \<and> ?slg \<noteq> NextSlot n" by simp
  qed
  have na: "?slg \<noteq> NextSlot g" using slg_out [of g] by simp
  from remGuard_effect [OF r p rd nx na] obtain s' where
    eff: "remGuard g s = Inr s' \<and>
      (\<forall>sl'. readGuardSlot s' sl' =
         (if sl' = ?slg then Inr (guard_next r)
          else if sl' = NextSlot g then Inr None else readGuardSlot s sl')) \<and>
      (\<forall>x. guardPrevOf s' x =
         (if x = g then None
          else if guard_next r = Some x then Some ?slg else guardPrevOf s x)) \<and>
      (\<forall>x. target s' x = target s x) \<and>
      (\<forall>d. lookupData s' d =
         (if ?slg = GuardsSlot d then map_option (\<lambda>dr. dr\<lparr>guards := guard_next r\<rparr>) (lookupData s d)
          else lookupData s d)) \<and>
      s'\<lparr>guardHeap := guardHeap s, dataHeap := dataHeap s\<rparr> = s"
    by (elim exE) (rule that)
  have R: "\<And>sl'. readGuardSlot s' sl' =
         (if sl' = ?slg then Inr (guard_next r)
          else if sl' = NextSlot g then Inr None else readGuardSlot s sl')"
    using eff by blast
  have P: "\<And>x. guardPrevOf s' x =
         (if x = g then None
          else if guard_next r = Some x then Some ?slg else guardPrevOf s x)"
    using eff by blast
  have Pas: "guardPrevOf s' x = guardPrevOf s x" if "x \<in> set as" for x
  proof -
    have "x \<noteq> g" using dist that by auto
    moreover have "guard_next r \<noteq> Some x" using nxt dist that by (cases bs) auto
    ultimately show ?thesis by (simp add: P)
  qed
  have Ras: "readGuardSlot s' sl = readGuardSlot s sl" if "as \<noteq> []"
  proof -
    have "last as \<in> set as" using that by simp
    then have "sl \<noteq> ?slg" using out [of "last as"] that by (simp add: lastSlot_cases)
    moreover have "sl \<noteq> NextSlot g" using out [of g] by simp
    ultimately show ?thesis by (simp add: R)
  qed
  have Rbut: "readGuardSlot s' (NextSlot x) = readGuardSlot s (NextSlot x)"
    if "x \<in> set (butlast as)" for x
  proof -
    have ne: "as \<noteq> []" using that by auto
    have "distinct as" using dist by simp
    then have "distinct (butlast as @ [last as])" using ne by simp
    then have "x \<noteq> last as" using that by auto
    then have "NextSlot x \<noteq> ?slg" using ne by (simp add: lastSlot_cases)
    moreover have "x \<in> set as" using that by (rule in_set_butlastD)
    then have "x \<noteq> g" using dist by auto
    ultimately show ?thesis by (simp add: R)
  qed
  have path': "guardPath s' sl as"
    using guardPath_cong [of as s' s sl, OF Pas Ras Rbut] pa by simp
  have tail': "guardList s' ?slg bs"
  proof (cases bs)
    case Nil
    then show ?thesis using nxt by (simp add: R)
  next
    case (Cons n bs')
    have nn: "guard_next r = Some n" using nxt Cons by simp
    have ng: "n \<noteq> g" using dist Cons by auto
    have l: "linkedAt s' ?slg n" using nn ng by (simp add: linkedAt_def R P)
    have old: "guardList s (NextSlot n) bs'" using tl Cons by simp
    have "guardList s' (NextSlot n) bs' = guardList s (NextSlot n) bs'"
    proof (rule guardList_cong)
      fix x assume x: "x \<in> set bs'"
      then have "x \<noteq> g" "x \<noteq> n" using dist Cons by auto
      then show "guardPrevOf s' x = guardPrevOf s x" using nn by (simp add: P)
      have "NextSlot x \<noteq> ?slg" using slg_out [of x] x Cons by simp
      then show "readGuardSlot s' (NextSlot x) = readGuardSlot s (NextSlot x)"
        using \<open>x \<noteq> g\<close> by (simp add: R)
    next
      have "NextSlot n \<noteq> ?slg" using slg_out [of n] Cons by simp
      then show "readGuardSlot s' (NextSlot n) = readGuardSlot s (NextSlot n)"
        using ng by (simp add: R)
    qed
    with old l Cons show ?thesis by simp
  qed
  have gl': "guardList s' sl (as @ bs)" using path' tail' by (simp add: guardList_append)
  have a: "remGuard g s = Inr s'" using eff by (rule conjunct1)
  have rest: "(\<forall>sl'. readGuardSlot s' sl' =
         (if sl' = ?slg then Inr (guard_next r)
          else if sl' = NextSlot g then Inr None else readGuardSlot s sl')) \<and>
      (\<forall>x. guardPrevOf s' x =
         (if x = g then None
          else if guard_next r = Some x then Some ?slg else guardPrevOf s x)) \<and>
      (\<forall>x. target s' x = target s x) \<and>
      (\<forall>d. lookupData s' d =
         (if ?slg = GuardsSlot d then map_option (\<lambda>dr. dr\<lparr>guards := guard_next r\<rparr>) (lookupData s d)
          else lookupData s d)) \<and>
      s'\<lparr>guardHeap := guardHeap s, dataHeap := dataHeap s\<rparr> = s"
    using eff by (rule conjunct2)
  show ?thesis
    by (rule exI [where x = s'], rule exI [where x = r]) (intro conjI a r nxt gl' rest)
qed


subsection \<open>Unregistering\<close>

text \<open>
  C2, as the code has it. For a guard \<open>g\<close> that is in a list (the list that starts at any
  field \<open>sl\<close>), \<open>remGuard\<close> succeeds, the list is afterwards the same sequence without \<open>g\<close>,
  \<open>g\<close> has neither \<open>next\<close> nor \<open>prev\<close>, and its target is unchanged. For a guard that is in
  no list (\<open>next\<close> and \<open>prev\<close> both null), \<open>remGuard\<close> writes through the null \<open>prev\<close>: it is
  not a no-op.
\<close>

theorem remGuard_unlinks:
  "(guardList s sl gs \<and> g \<in> set gs \<longrightarrow>
      (\<exists>s'. remGuard g s = Inr s' \<and> guardList s' sl (remove1 g gs) \<and> unregistered s' g \<and>
         target s' g = target s g)) \<and>
   (unregistered s g \<longrightarrow> remGuard g s = Inl NullDereference)"
proof (intro conjI impI)
  assume "guardList s sl gs \<and> g \<in> set gs"
  then have gl: "guardList s sl gs" and mem: "g \<in> set gs" by simp_all
  from mem obtain as bs where gs: "gs = as @ g # bs" by (auto simp: in_set_conv_decomp)
  have "distinct gs" using gl by (rule guardList_distinct)
  then have "g \<notin> set as" using gs by auto
  then have rm: "remove1 g gs = as @ bs" using gs by (simp add: remove1_append)
  from remGuard_in_list [OF gl [unfolded gs]] obtain s' r where
    eff: "remGuard g s = Inr s' \<and> guardHeap s g = Some r \<and>
      guard_next r = (case bs of [] \<Rightarrow> None | n # _ \<Rightarrow> Some n) \<and>
      guardList s' sl (as @ bs) \<and>
      (\<forall>sl'. readGuardSlot s' sl' =
         (if sl' = lastSlot sl as then Inr (guard_next r)
          else if sl' = NextSlot g then Inr None else readGuardSlot s sl')) \<and>
      (\<forall>x. guardPrevOf s' x =
         (if x = g then None
          else if guard_next r = Some x then Some (lastSlot sl as) else guardPrevOf s x)) \<and>
      (\<forall>x. target s' x = target s x) \<and>
      (\<forall>d. lookupData s' d =
         (if lastSlot sl as = GuardsSlot d
          then map_option (\<lambda>dr. dr\<lparr>guards := guard_next r\<rparr>) (lookupData s d)
          else lookupData s d)) \<and>
      s'\<lparr>guardHeap := guardHeap s, dataHeap := dataHeap s\<rparr> = s"
    by (elim exE) (rule that)
  have a: "remGuard g s = Inr s'" and l: "guardList s' sl (as @ bs)"
    and R: "\<forall>sl'. readGuardSlot s' sl' =
         (if sl' = lastSlot sl as then Inr (guard_next r)
          else if sl' = NextSlot g then Inr None else readGuardSlot s sl')"
    and P: "\<forall>x. guardPrevOf s' x =
         (if x = g then None
          else if guard_next r = Some x then Some (lastSlot sl as) else guardPrevOf s x)"
    and T: "\<forall>x. target s' x = target s x"
    using eff by blast+
  have "lastSlot sl as \<noteq> NextSlot g"
  proof (cases "as = []")
    case True
    then show ?thesis using guardList_slot_outside [OF gl mem] by simp
  next
    case False
    then have "last as \<in> set as" by simp
    with \<open>g \<notin> set as\<close> have "last as \<noteq> g" by auto
    then show ?thesis using False by (simp add: lastSlot_cases)
  qed
  then have "readGuardSlot s' (NextSlot g) = Inr None" using R by simp
  moreover have "guardPrevOf s' g = None" using P by simp
  ultimately have "unregistered s' g"
    by (auto simp: unregistered_def readGuardSlot_def guardPrevOf_def split: option.splits)
  with a l rm T
  show "\<exists>s'. remGuard g s = Inr s' \<and> guardList s' sl (remove1 g gs) \<and> unregistered s' g \<and>
         target s' g = target s g"
    by auto
next
  assume "unregistered s g"
  then show "remGuard g s = Inl NullDereference"
    by (auto simp: unregistered_def remGuard_def setPrevOfNext_def split: option.splits)
qed

lemma guardList_twoGuardStore: "guardList twoGuardStore (GuardsSlot 0) [1]"
  by (simp add: linkedAt_def readGuardSlot_def guardPrevOf_def twoGuardStore_def lookupData_def
      QmlDeclarativeData_new_def)

theorem remGuard_unlinks_witness:
  "guardList twoGuardStore (GuardsSlot 0) [1] \<and> unregistered twoGuardStore 2 \<and>
   (\<exists>s'. remGuard 1 twoGuardStore = Inr s' \<and> guardList s' (GuardsSlot 0) [] \<and>
      unregistered s' 1 \<and> target s' 1 = Some 0) \<and>
   remGuard 2 twoGuardStore = Inl NullDereference"
proof -
  have u: "unregistered twoGuardStore 2"
    by (simp add: unregistered_def twoGuardStore_def newGuard_def)
  have t: "target twoGuardStore 1 = Some 0" by (simp add: target_def twoGuardStore_def)
  show ?thesis
    using remGuard_unlinks [of twoGuardStore "GuardsSlot 0" "[1]" 1]
      remGuard_unlinks [of twoGuardStore "GuardsSlot 0" "[1]" 2] guardList_twoGuardStore u t
    by simp
qed

text \<open>
  The claim as stated fails: \<open>remGuard\<close> on the unregistered guard \<open>2\<close> dereferences null, and
  so does a second \<open>remGuard\<close> on guard \<open>1\<close> after a first one has unregistered it.
\<close>

theorem remGuard_unregistered_counterexample:
  "unregistered twoGuardStore 2 \<and> remGuard 2 twoGuardStore = Inl NullDereference \<and>
   (case remGuard 1 twoGuardStore of
      Inl e \<Rightarrow> False
    | Inr s' \<Rightarrow> unregistered s' 1 \<and> remGuard 1 s' = Inl NullDereference)"
  by (simp add: unregistered_def remGuard_def setPrevOfNext_def setNext_def setPrev_def
      writeGuardSlot_def twoGuardStore_def newGuard_def lookupData_def storeData_def
      storeGuard_def)


subsection \<open>Teardown\<close>

text \<open>Clearing the target of a guard does not move it in its list.\<close>

lemma guardList_clear_target:
  assumes "guardHeap s g = Some r"
  shows "guardList (storeGuard g (r\<lparr>guard_o := None\<rparr>) s) sl gs = guardList s sl gs"
proof (rule guardList_cong)
  show "\<And>x. guardPrevOf (storeGuard g (r\<lparr>guard_o := None\<rparr>) s) x = guardPrevOf s x"
    using assms by (simp add: guardPrevOf_def)
  have rd: "readGuardSlot (storeGuard g (r\<lparr>guard_o := None\<rparr>) s) sl' = readGuardSlot s sl'" for sl'
    using assms by (cases sl') (auto simp: readGuardSlot_def)
  show "readGuardSlot (storeGuard g (r\<lparr>guard_o := None\<rparr>) s) sl = readGuardSlot s sl"
    by (rule rd)
  show "\<And>x. readGuardSlot (storeGuard g (r\<lparr>guard_o := None\<rparr>) s) (NextSlot x) =
      readGuardSlot s (NextSlot x)"
    by (rule rd)
qed

text \<open>The walk over the guard list of a record comes to an end; it clears the target of
  every guard of the list and takes each out of the list, and touches no other guard.\<close>

lemma invalidateGuards_list:
  assumes "guardList s (GuardsSlot d) gs"
  shows "\<exists>s'. invalidateGuards (case gs of [] \<Rightarrow> None | g # _ \<Rightarrow> Some g) s = Some (Inr s') \<and>
     (\<forall>x. target s' x = (if x \<in> set gs then None else target s x)) \<and>
     (\<forall>x. guardPrevOf s' x = (if x \<in> set gs then None else guardPrevOf s x)) \<and>
     (\<forall>x. readGuardSlot s' (NextSlot x) =
        (if x \<in> set gs then Inr None else readGuardSlot s (NextSlot x))) \<and>
     (\<forall>d'. lookupData s' d' =
        (if d' = d then map_option (\<lambda>dr. dr\<lparr>guards := None\<rparr>) (lookupData s d)
         else lookupData s d')) \<and>
     declarativeData s' = declarativeData s \<and> bindingHeap s' = bindingHeap s \<and>
     contextObjects s' = contextObjects s \<and> signals s' = signals s"
  using assms
proof (induction gs arbitrary: s)
  case Nil
  then obtain dr where "lookupData s d = Some dr" "guards dr = None"
    by (auto simp: readGuardSlot_def split: option.splits)
  then show ?case by (auto simp: invalidateGuards.simps)
next
  case (Cons g gs)
  let ?hd = "case gs of [] \<Rightarrow> None | n # _ \<Rightarrow> Some n"
  from Cons.prems obtain r where r: "guardHeap s g = Some r"
    by (auto simp: linkedAt_def guardPrevOf_def split: option.splits)
  define s0 where "s0 = storeGuard g (r\<lparr>guard_o := None\<rparr>) s"
  have gl0: "guardList s0 (GuardsSlot d) ([] @ g # gs)"
    unfolding s0_def append_Nil guardList_clear_target [OF r] by (rule Cons.prems)
  from remGuard_in_list [OF gl0] obtain s1 r0 where
    eff: "remGuard g s0 = Inr s1 \<and> guardHeap s0 g = Some r0 \<and>
      guard_next r0 = ?hd \<and>
      guardList s1 (GuardsSlot d) ([] @ gs) \<and>
      (\<forall>sl'. readGuardSlot s1 sl' =
         (if sl' = lastSlot (GuardsSlot d) [] then Inr (guard_next r0)
          else if sl' = NextSlot g then Inr None else readGuardSlot s0 sl')) \<and>
      (\<forall>x. guardPrevOf s1 x =
         (if x = g then None
          else if guard_next r0 = Some x then Some (lastSlot (GuardsSlot d) []) else guardPrevOf s0 x)) \<and>
      (\<forall>x. target s1 x = target s0 x) \<and>
      (\<forall>d'. lookupData s1 d' =
         (if lastSlot (GuardsSlot d) [] = GuardsSlot d'
          then map_option (\<lambda>dr. dr\<lparr>guards := guard_next r0\<rparr>) (lookupData s0 d')
          else lookupData s0 d')) \<and>
      s1\<lparr>guardHeap := guardHeap s0, dataHeap := dataHeap s0\<rparr> = s0"
    by (elim exE) (rule that)
  have a: "remGuard g s0 = Inr s1" and nx: "guard_next r0 = ?hd"
    and gl1: "guardList s1 (GuardsSlot d) gs"
    and R: "\<And>sl'. readGuardSlot s1 sl' =
         (if sl' = GuardsSlot d then Inr (guard_next r0)
          else if sl' = NextSlot g then Inr None else readGuardSlot s0 sl')"
    and P: "\<And>x. guardPrevOf s1 x =
         (if x = g then None
          else if guard_next r0 = Some x then Some (GuardsSlot d) else guardPrevOf s0 x)"
    and T: "\<And>x. target s1 x = target s0 x"
    and D: "\<And>d'. lookupData s1 d' =
         (if d = d' then map_option (\<lambda>dr. dr\<lparr>guards := guard_next r0\<rparr>) (lookupData s0 d')
          else lookupData s0 d')"
    and F: "s1\<lparr>guardHeap := guardHeap s0, dataHeap := dataHeap s0\<rparr> = s0"
    using eff by simp_all
  have r0: "r0 = r\<lparr>guard_o := None\<rparr>" using eff by (simp add: s0_def)
  have nxr: "guard_next r = ?hd" using nx r0 by simp
  have F1: "declarativeData s1 = declarativeData s \<and> bindingHeap s1 = bindingHeap s \<and>
     contextObjects s1 = contextObjects s \<and> signals s1 = signals s"
  proof -
    have "declarativeData (s1\<lparr>guardHeap := guardHeap s0, dataHeap := dataHeap s0\<rparr>) = declarativeData s0"
      "bindingHeap (s1\<lparr>guardHeap := guardHeap s0, dataHeap := dataHeap s0\<rparr>) = bindingHeap s0"
      "contextObjects (s1\<lparr>guardHeap := guardHeap s0, dataHeap := dataHeap s0\<rparr>) = contextObjects s0"
      "signals (s1\<lparr>guardHeap := guardHeap s0, dataHeap := dataHeap s0\<rparr>) = signals s0"
      by (simp_all only: F)
    then show ?thesis by (simp add: s0_def storeGuard_def)
  qed
  from Cons.IH [OF gl1] obtain s' where
    ih: "invalidateGuards ?hd s1 = Some (Inr s') \<and>
     (\<forall>x. target s' x = (if x \<in> set gs then None else target s1 x)) \<and>
     (\<forall>x. guardPrevOf s' x = (if x \<in> set gs then None else guardPrevOf s1 x)) \<and>
     (\<forall>x. readGuardSlot s' (NextSlot x) =
        (if x \<in> set gs then Inr None else readGuardSlot s1 (NextSlot x))) \<and>
     (\<forall>d'. lookupData s' d' =
        (if d' = d then map_option (\<lambda>dr. dr\<lparr>guards := None\<rparr>) (lookupData s1 d)
         else lookupData s1 d')) \<and>
     declarativeData s' = declarativeData s1 \<and> bindingHeap s' = bindingHeap s1 \<and>
     contextObjects s' = contextObjects s1 \<and> signals s' = signals s1"
    by (elim exE) (rule that)
  have run: "invalidateGuards (Some g) s = Some (Inr s')"
    using r a ih nxr by (subst invalidateGuards.simps) (simp add: s0_def)
  have hdmem: "\<And>x. guard_next r0 = Some x \<Longrightarrow> x \<in> set gs"
    using nx by (cases gs) auto
  have c1: "\<forall>x. target s' x = (if x \<in> set (g # gs) then None else target s x)"
    using ih T by (auto simp: s0_def)
  have c2: "\<forall>x. guardPrevOf s' x = (if x \<in> set (g # gs) then None else guardPrevOf s x)"
    using ih hdmem by (auto simp: P s0_def)
  have c3: "\<forall>x. readGuardSlot s' (NextSlot x) =
        (if x \<in> set (g # gs) then Inr None else readGuardSlot s (NextSlot x))"
    using ih by (auto simp: R s0_def)
  have c4: "\<forall>d'. lookupData s' d' =
        (if d' = d then map_option (\<lambda>dr. dr\<lparr>guards := None\<rparr>) (lookupData s d)
         else lookupData s d')"
    using ih by (auto simp: D s0_def option.map_comp comp_def)
  have c5: "declarativeData s' = declarativeData s \<and> bindingHeap s' = bindingHeap s \<and>
     contextObjects s' = contextObjects s \<and> signals s' = signals s"
    using ih F1 by simp
  show ?case
    apply (rule exI [where x = s'])
    using run c1 c2 c3 c4 c5 by simp
qed


text \<open>Binding lists: the sequence is determined by its first binding, and a binding is
  not met again after itself.\<close>

lemma bindingList_unique:
  "bindingList s b xs \<Longrightarrow> bindingList s b ys \<Longrightarrow> xs = ys"
proof (induction xs arbitrary: b ys)
  case Nil
  then show ?case by (cases ys) auto
next
  case (Cons x xs)
  then show ?case by (cases ys) (auto split: option.splits)
qed

lemma bindingList_suffix:
  "bindingList s b xs \<Longrightarrow> x \<in> set xs \<Longrightarrow>
     \<exists>ys. bindingList s (Some x) ys \<and> length ys \<le> length xs"
proof (induction xs arbitrary: b)
  case Nil
  then show ?case by simp
next
  case (Cons y xs)
  show ?case
  proof (cases "x = y")
    case True
    with Cons.prems(1) have "bindingList s (Some x) (y # xs)" by simp
    then show ?thesis by blast
  next
    case False
    with Cons.prems obtain r where "bindingHeap s y = Some r" "bindingList s (binding_next r) xs"
      and "x \<in> set xs"
      by (auto split: option.splits)
    from Cons.IH [OF this(2,3)] show ?thesis by auto
  qed
qed

lemma bindingList_head_not_in_tail:
  assumes "bindingHeap s x = Some br" and "bindingList s (binding_next br) xs"
  shows "x \<notin> set xs"
proof
  assume "x \<in> set xs"
  from bindingList_suffix [OF assms(2) this] obtain ys where
    ys: "bindingList s (Some x) ys" "length ys \<le> length xs" by blast
  have "bindingList s (Some x) (x # xs)" using assms by simp
  with ys(1) have "ys = x # xs" by (rule bindingList_unique)
  with ys(2) show False by simp
qed

lemma bindingList_cong:
  "(\<And>x. x \<in> set xs \<Longrightarrow> bindingHeap s' x = bindingHeap s x) \<Longrightarrow>
     bindingList s' b xs = bindingList s b xs"
  by (induction xs arbitrary: b) (auto split: option.splits)

lemma lookupData_other_fields [simp]:
  "lookupData (s\<lparr>bindingHeap := B\<rparr>) d = lookupData s d"
  "lookupData (s\<lparr>signals := S\<rparr>) d = lookupData s d"
  "lookupData (s\<lparr>contextObjects := C\<rparr>) d = lookupData s d"
  "lookupData (s\<lparr>guardHeap := G\<rparr>) d = lookupData s d"
  by (simp_all add: lookupData_def)

lemma contexts_clearBindingBit [simp]:
  "prevContextObject (clearBindingBit i r) = prevContextObject r"
  "nextContextObject (clearBindingBit i r) = nextContextObject r"
  "attachedProperties (clearBindingBit i r) = attachedProperties r"
  by (simp_all add: clearBindingBit_def)

text \<open>The walk over the binding list comes to an end and touches no guard.\<close>

lemma detachBindings_list:
  assumes "bindingList s b bs" and "lookupData s d = Some dr"
  shows "\<exists>s' dr'. detachBindings d b s = Some (Inr s') \<and> guardHeap s' = guardHeap s \<and>
     declarativeData s' = declarativeData s \<and> contextObjects s' = contextObjects s \<and>
     (\<forall>d'. d' \<noteq> d \<longrightarrow> lookupData s' d' = lookupData s d') \<and>
     lookupData s' d = Some dr' \<and> prevContextObject dr' = prevContextObject dr \<and>
     nextContextObject dr' = nextContextObject dr"
  using assms
proof (induction bs arbitrary: s b dr)
  case Nil
  then show ?case by (simp add: detachBindings.simps)
next
  case (Cons x xs)
  from Cons.prems(1) obtain br where b: "b = Some x" and br: "bindingHeap s x = Some br"
    and tl: "bindingList s (binding_next br) xs"
    by (auto split: option.splits)
  let ?dr1 = "(clearBindingBit (int (binding_slot br)) dr)\<lparr>bindings := binding_next br\<rparr>"
  define s1 where "s1 = (storeData d ?dr1 s)
       \<lparr>bindingHeap := (bindingHeap s)(x := Some (br\<lparr>binding_next := None, binding_attached := False\<rparr>)),
        signals := signals s @ [BindingTargetGone x]\<rparr>"
  have nx: "x \<notin> set xs" using br tl by (rule bindingList_head_not_in_tail)
  have "bindingList s1 (binding_next br) xs = bindingList s (binding_next br) xs"
    by (rule bindingList_cong) (use nx in \<open>auto simp: s1_def\<close>)
  with tl have tl1: "bindingList s1 (binding_next br) xs" by simp
  have l1: "lookupData s1 d = Some ?dr1"
    using Cons.prems(2) by (simp add: s1_def lookupData_storeData_valid [OF Cons.prems(2)])
  have o1: "\<And>d'. d' \<noteq> d \<Longrightarrow> lookupData s1 d' = lookupData s d'"
    by (simp add: s1_def lookupData_storeData_valid [OF Cons.prems(2)])
  have f1: "guardHeap s1 = guardHeap s \<and> declarativeData s1 = declarativeData s \<and>
      contextObjects s1 = contextObjects s"
    by (simp add: s1_def storeData_def)
  from Cons.IH [OF tl1 l1] obtain s' dr' where
    ih: "detachBindings d (binding_next br) s1 = Some (Inr s') \<and> guardHeap s' = guardHeap s1 \<and>
     declarativeData s' = declarativeData s1 \<and> contextObjects s' = contextObjects s1 \<and>
     (\<forall>d'. d' \<noteq> d \<longrightarrow> lookupData s' d' = lookupData s1 d') \<and>
     lookupData s' d = Some dr' \<and> prevContextObject dr' = prevContextObject ?dr1 \<and>
     nextContextObject dr' = nextContextObject ?dr1"
    by (elim exE) (rule that)
  have run: "detachBindings d b s = Some (Inr s')"
    using b br Cons.prems(2) ih by (subst detachBindings.simps) (simp add: s1_def)
  show ?case
    apply (rule exI [where x = s'], rule exI [where x = dr'])
    using run ih f1 o1 by simp
qed


text \<open>Unlinking from the context list succeeds on a sound node and touches no guard.\<close>

lemma storeData_keeps_validity:
  "lookupData s n = Some nr \<Longrightarrow>
     (lookupData (storeData n r s) x = None) = (lookupData s x = None)"
  by (simp add: lookupData_storeData_valid)

lemma unlink_step1:
  assumes "\<forall>n. nx = Some n \<longrightarrow> lookupData s n \<noteq> None"
  shows "\<exists>s1. (case nx of
              None \<Rightarrow> Inr s
            | Some n \<Rightarrow>
                (case lookupData s n of
                   None \<Rightarrow> Inl InvalidDereference
                 | Some nr \<Rightarrow> Inr (storeData n (nr\<lparr>prevContextObject := Some sl\<rparr>) s))) = Inr s1 \<and>
      guardHeap s1 = guardHeap s \<and> declarativeData s1 = declarativeData s \<and>
      (\<forall>x. (lookupData s1 x = None) = (lookupData s x = None))"
proof (cases nx)
  case None
  then show ?thesis by simp
next
  case (Some n)
  with assms obtain nr where "lookupData s n = Some nr" by auto
  with Some show ?thesis by (simp add: storeData_keeps_validity)
qed

lemma unlink_step2:
  assumes "\<forall>p. sl = NextContextObjectSlot p \<longrightarrow> lookupData s p \<noteq> None"
  shows "\<exists>s2. writeContextSlot sl v s = Inr s2 \<and>
      guardHeap s2 = guardHeap s \<and> declarativeData s2 = declarativeData s \<and>
      (\<forall>x. (lookupData s2 x = None) = (lookupData s x = None))"
proof (cases sl)
  case (ContextObjectsSlot c)
  then show ?thesis by (simp add: writeContextSlot_def)
next
  case (NextContextObjectSlot p)
  with assms obtain pr where "lookupData s p = Some pr" by auto
  with NextContextObjectSlot show ?thesis
    by (simp add: writeContextSlot_def storeData_keeps_validity)
qed

lemma unlinkContextObject_valid:
  assumes "contextNodeValid s d"
  shows "\<exists>s'. unlinkContextObject d s = Inr s' \<and> guardHeap s' = guardHeap s \<and>
     declarativeData s' = declarativeData s \<and> lookupData s' d \<noteq> None"
proof -
  from assms obtain dr where dr: "lookupData s d = Some dr"
    by (auto simp: contextNodeValid_def split: option.splits)
  show ?thesis
  proof (cases "prevContextObject dr")
    case None
    then show ?thesis using dr by (simp add: unlinkContextObject_def)
  next
    case (Some sl)
    have v1: "\<forall>n. nextContextObject dr = Some n \<longrightarrow> lookupData s n \<noteq> None"
      and v2: "\<forall>p. sl = NextContextObjectSlot p \<longrightarrow> lookupData s p \<noteq> None"
      using assms dr Some by (auto simp: contextNodeValid_def)
    from unlink_step1 [OF v1, of sl] obtain s1 where
      s1: "(case nextContextObject dr of
              None \<Rightarrow> Inr s
            | Some n \<Rightarrow>
                (case lookupData s n of
                   None \<Rightarrow> Inl InvalidDereference
                 | Some nr \<Rightarrow> Inr (storeData n (nr\<lparr>prevContextObject := Some sl\<rparr>) s))) = Inr s1"
      and g1: "guardHeap s1 = guardHeap s" and d1: "declarativeData s1 = declarativeData s"
      and k1: "\<forall>x. (lookupData s1 x = None) = (lookupData s x = None)"
      by blast
    have v2': "\<forall>p. sl = NextContextObjectSlot p \<longrightarrow> lookupData s1 p \<noteq> None"
      using v2 k1 by simp
    from unlink_step2 [OF v2', of "nextContextObject dr"] obtain s2 where
      s2: "writeContextSlot sl (nextContextObject dr) s1 = Inr s2"
      and g2: "guardHeap s2 = guardHeap s1" and d2: "declarativeData s2 = declarativeData s1"
      and k2: "\<forall>x. (lookupData s2 x = None) = (lookupData s1 x = None)"
      by blast
    have "lookupData s2 d \<noteq> None" using k2 k1 dr by simp
    then obtain dr2 where dr2: "lookupData s2 d = Some dr2" by blast
    have "unlinkContextObject d s =
        Inr (storeData d (dr2\<lparr>nextContextObject := None, prevContextObject := None\<rparr>) s2)"
      using dr Some s1 s2 dr2 by (simp add: unlinkContextObject_def)
    then show ?thesis using g1 g2 d1 d2 dr2 by (simp add: lookupData_storeData_valid)
  qed
qed


text \<open>The teardown of an object whose record has guard list \<open>gs\<close> and binding list \<open>bs\<close>.\<close>

lemma destroyed_list:
  assumes "declarativeData s h = Some d" and "guardList s (GuardsSlot d) gs"
    and "lookupData s d = Some dr" and "bindingList s (bindings dr) bs"
    and "contextNodeValid s d"
  shows "\<exists>s'. destroyed h s = Some (Inr s') \<and>
      (\<forall>g \<in> set gs. target s' g = None \<and> unregistered s' g) \<and>
      (\<forall>x. x \<notin> set gs \<longrightarrow> target s' x = target s x) \<and>
      ((\<forall>x. target s x = Some h \<longrightarrow> x \<in> set gs) \<longrightarrow> (\<forall>x. target s' x \<noteq> Some h)) \<and>
      declarativeData s' h = None"
proof -
  have hd: "guards dr = (case gs of [] \<Rightarrow> None | g # _ \<Rightarrow> Some g)"
    using guardList_read_head [OF assms(2)] assms(3) by (simp add: readGuardSlot_def)
  from invalidateGuards_list [OF assms(2)] obtain s1 where
    a: "invalidateGuards (case gs of [] \<Rightarrow> None | g # _ \<Rightarrow> Some g) s = Some (Inr s1) \<and>
     (\<forall>x. target s1 x = (if x \<in> set gs then None else target s x)) \<and>
     (\<forall>x. guardPrevOf s1 x = (if x \<in> set gs then None else guardPrevOf s x)) \<and>
     (\<forall>x. readGuardSlot s1 (NextSlot x) =
        (if x \<in> set gs then Inr None else readGuardSlot s (NextSlot x))) \<and>
     (\<forall>d'. lookupData s1 d' =
        (if d' = d then map_option (\<lambda>dr. dr\<lparr>guards := None\<rparr>) (lookupData s d)
         else lookupData s d')) \<and>
     declarativeData s1 = declarativeData s \<and> bindingHeap s1 = bindingHeap s \<and>
     contextObjects s1 = contextObjects s \<and> signals s1 = signals s"
    by (elim exE) (rule that)
  let ?dr1 = "dr\<lparr>guards := None\<rparr>"
  have l1: "lookupData s1 d = Some ?dr1" using a assms(3) by simp
  have T1: "\<And>x. target s1 x = (if x \<in> set gs then None else target s x)" using a by simp
  have U1: "\<And>x. x \<in> set gs \<Longrightarrow> unregistered s1 x"
  proof -
    fix x assume "x \<in> set gs"
    then have "guardPrevOf s1 x = None" "readGuardSlot s1 (NextSlot x) = Inr None"
      using a by simp_all
    then show "unregistered s1 x"
      by (auto simp: unregistered_def guardPrevOf_def readGuardSlot_def split: option.splits)
  qed
  have "bindingList s1 (bindings ?dr1) bs = bindingList s (bindings dr) bs"
  proof -
    have "bindingHeap s1 = bindingHeap s" using a by simp
    then have "bindingList s1 (bindings dr) bs = bindingList s (bindings dr) bs"
      by (intro bindingList_cong) simp
    then show ?thesis by simp
  qed
  with assms(4) have bl1: "bindingList s1 (bindings ?dr1) bs" by simp
  from detachBindings_list [OF bl1 l1] obtain s2 dr2 where
    b: "detachBindings d (bindings ?dr1) s1 = Some (Inr s2) \<and> guardHeap s2 = guardHeap s1 \<and>
     declarativeData s2 = declarativeData s1 \<and> contextObjects s2 = contextObjects s1 \<and>
     (\<forall>d'. d' \<noteq> d \<longrightarrow> lookupData s2 d' = lookupData s1 d') \<and>
     lookupData s2 d = Some dr2 \<and> prevContextObject dr2 = prevContextObject ?dr1 \<and>
     nextContextObject dr2 = nextContextObject ?dr1"
    by (elim exE) (rule that)
  have l2: "lookupData s2 d = Some dr2" and p2: "prevContextObject dr2 = prevContextObject dr"
    and n2: "nextContextObject dr2 = nextContextObject dr"
    and o2: "\<And>d'. d' \<noteq> d \<Longrightarrow> lookupData s2 d' = lookupData s d'"
    using a b by simp_all
  have same: "(lookupData s2 d' \<noteq> None) = (lookupData s d' \<noteq> None)" for d'
    using l2 o2 [of d'] assms(3) by (cases "d' = d") simp_all
  have same': "(\<exists>y. lookupData s2 d' = Some y) = (\<exists>y. lookupData s d' = Some y)" for d'
    using same [of d'] by simp
  have cv: "contextNodeValid s2 d"
    using assms(5) unfolding contextNodeValid_def
    by (simp add: l2 p2 n2 assms(3) same' split: option.splits context_slot.splits)
  from unlinkContextObject_valid [OF cv] obtain s3 where
    c: "unlinkContextObject d s2 = Inr s3" "guardHeap s3 = guardHeap s2"
      "declarativeData s3 = declarativeData s2" "lookupData s3 d \<noteq> None"
    by blast
  then obtain dr3 where dr3: "lookupData s3 d = Some dr3" by auto
  define s4 where "s4 = (storeData d (dr3\<lparr>attachedProperties := None\<rparr>) s3)
               \<lparr>signals := signals s3 @
                  map (\<lambda>kv. CompanionOwnerGone (snd kv))
                    (case attachedProperties dr3 of None \<Rightarrow> [] | Some hash \<Rightarrow> hash)\<rparr>"
  have r4: "releaseCompanions d s3 = Inr s4"
    using dr3 by (simp add: releaseCompanions_def s4_def)
  have g4: "guardHeap s4 = guardHeap s3" by (simp add: s4_def storeData_def)
  let ?s' = "freeData h d s4"
  have gfin: "guardHeap ?s' = guardHeap s1"
    using g4 c(2) b by (simp add: freeData_def)
  have run: "destroyed h s = Some (Inr ?s')"
    using assms(1,3) a hd l1 b c(1) r4 by (simp add: destroyed_def)
  have Tfin: "\<And>x. target ?s' x = target s1 x" by (simp add: target_def gfin)
  have Ufin: "\<And>x. unregistered ?s' x = unregistered s1 x" by (simp add: unregistered_def gfin)
  have dfin: "declarativeData ?s' h = None" by (simp add: freeData_def)
  have c1: "\<forall>g \<in> set gs. target ?s' g = None \<and> unregistered ?s' g"
    using Tfin Ufin T1 U1 by simp
  have c2: "\<forall>x. x \<notin> set gs \<longrightarrow> target ?s' x = target s x"
    using Tfin T1 by simp
  have c3: "(\<forall>x. target s x = Some h \<longrightarrow> x \<in> set gs) \<longrightarrow> (\<forall>x. target ?s' x \<noteq> Some h)"
    using Tfin T1 by auto
  show ?thesis
    by (rule exI [where x = ?s']) (intro conjI run c1 c2 c3 dfin)
qed



text \<open>Registration by \<open>addGuard\<close> puts an unregistered guard at the front of the sequence.\<close>

lemma guardList_member_linked:
  "guardList s sl gs \<Longrightarrow> x \<in> set gs \<Longrightarrow> guardPrevOf s x \<noteq> None"
  by (induction gs arbitrary: sl) (auto simp: linkedAt_def)

lemma addGuard_registers:
  assumes dd: "declarativeData s h = Some d" and gl: "guardList s (GuardsSlot d) gs"
    and u: "unregistered s g" and t: "target s g = Some h"
  shows "\<exists>s1 dr. addGuard g s = Inr s1 \<and> declarativeData s1 h = Some d \<and>
     guardList s1 (GuardsSlot d) (g # gs) \<and> (\<forall>x. target s1 x = target s x) \<and>
     lookupData s d = Some dr \<and> lookupData s1 d = Some (dr\<lparr>guards := Some g\<rparr>) \<and>
     (\<forall>d'. d' \<noteq> d \<longrightarrow> lookupData s1 d' = lookupData s d') \<and>
     bindingHeap s1 = bindingHeap s"
proof -
  let ?hd = "case gs of [] \<Rightarrow> None | n # _ \<Rightarrow> Some n"
  have rdh: "readGuardSlot s (GuardsSlot d) = Inr ?hd" using gl by (rule guardList_read_head)
  then obtain dr where dr: "lookupData s d = Some dr" and gd: "guards dr = ?hd"
    by (auto simp: readGuardSlot_def split: option.splits)
  have hv: "hostValid s h" using dd dr by (simp add: hostValid_def)
  have gh: "guardsHead s h = ?hd" using dd dr gd by (simp add: guardsHead_def)
  obtain r where r: "guardHeap s g = Some r" and o: "guard_o r = Some h"
    and pn: "guardPrevOf s g = None"
    using u t by (auto simp: unregistered_def target_def guardPrevOf_def split: option.splits)
  have gn: "g \<notin> set gs" using guardList_member_linked [OF gl, of g] pn by auto
  have nh: "guardsHead s h \<noteq> Some g" using gh gn by (cases gs) auto
  have ha: "\<forall>n. guardsHead s h = Some n \<longrightarrow> guardHeap s n \<noteq> None"
  proof (intro allI impI)
    fix n assume "guardsHead s h = Some n"
    then have "n \<in> set gs" using gh by (cases gs) auto
    then have "guardPrevOf s n \<noteq> None" using gl by (rule guardList_member_linked [rotated])
    then show "guardHeap s n \<noteq> None" by (auto simp: guardPrevOf_def split: option.splits)
  qed
  from addGuard_effect [OF r o hv nh ha] obtain s1 d1 where
    eff: "addGuard g s = Inr s1 \<and>
      declarativeData s1 = (declarativeData s)(h := Some d1) \<and>
      (declarativeData s h = None \<longrightarrow> lookupData s d1 = None) \<and>
      (\<forall>d0. declarativeData s h = Some d0 \<longrightarrow> d1 = d0) \<and>
      (\<forall>sl. readGuardSlot s1 sl =
         (if sl = GuardsSlot d1 then Inr (Some g)
          else if sl = NextSlot g then Inr (guardsHead s h) else readGuardSlot s sl)) \<and>
      (\<forall>x. guardPrevOf s1 x =
         (if x = g then Some (GuardsSlot d1)
          else if guardsHead s h = Some x then Some (NextSlot g) else guardPrevOf s x)) \<and>
      (\<forall>x. target s1 x = target s x) \<and>
      (\<forall>d'. d' \<noteq> d1 \<longrightarrow> lookupData s1 d' = lookupData s d') \<and>
      lookupData s1 d1 =
        Some ((case lookupData s d1 of None \<Rightarrow> QmlDeclarativeData_new None | Some dr \<Rightarrow> dr)
              \<lparr>guards := Some g\<rparr>) \<and>
      bindingHeap s1 = bindingHeap s \<and> contextObjects s1 = contextObjects s \<and>
      signals s1 = signals s"
    by (elim exE) (rule that)
  have d1: "d1 = d" using eff dd by simp
  have a: "addGuard g s = Inr s1" using eff by (rule conjunct1)
  have R: "\<And>sl. readGuardSlot s1 sl =
         (if sl = GuardsSlot d then Inr (Some g)
          else if sl = NextSlot g then Inr ?hd else readGuardSlot s sl)"
    using eff d1 gh by simp
  have P: "\<And>x. guardPrevOf s1 x =
         (if x = g then Some (GuardsSlot d)
          else if ?hd = Some x then Some (NextSlot g) else guardPrevOf s x)"
    using eff d1 gh by simp
  have T: "\<forall>x. target s1 x = target s x" using eff by simp
  have L: "lookupData s1 d = Some (dr\<lparr>guards := Some g\<rparr>)" using eff d1 dr by simp
  have O: "\<forall>d'. d' \<noteq> d \<longrightarrow> lookupData s1 d' = lookupData s d'" using eff d1 by simp
  have B: "bindingHeap s1 = bindingHeap s" using eff by simp
  have D: "declarativeData s1 h = Some d" using eff d1 by simp
  have dist: "distinct gs" using gl by (rule guardList_distinct)
  have tail: "guardList s1 (NextSlot g) gs"
  proof (cases gs)
    case Nil
    then show ?thesis by (simp add: R)
  next
    case (Cons n gs')
    have ng: "n \<noteq> g" using gn Cons by auto
    have l: "linkedAt s1 (NextSlot g) n" using Cons ng by (simp add: linkedAt_def R P)
    have old: "guardList s (NextSlot n) gs'" using gl Cons by simp
    have "guardList s1 (NextSlot n) gs' = guardList s (NextSlot n) gs'"
    proof (rule guardList_cong)
      fix x assume x: "x \<in> set gs'"
      then have "x \<noteq> g" "x \<noteq> n" using gn dist Cons by auto
      then show "guardPrevOf s1 x = guardPrevOf s x" using Cons by (simp add: P)
      show "readGuardSlot s1 (NextSlot x) = readGuardSlot s (NextSlot x)"
        using \<open>x \<noteq> g\<close> by (simp add: R)
    next
      show "readGuardSlot s1 (NextSlot n) = readGuardSlot s (NextSlot n)"
        using ng by (simp add: R)
    qed
    with old l Cons show ?thesis by simp
  qed
  have gl1: "guardList s1 (GuardsSlot d) (g # gs)"
    using tail by (simp add: linkedAt_def R P)
  show ?thesis
    by (rule exI [where x = s1], rule exI [where x = dr]) (intro conjI a D gl1 T dr L O B)
qed

text \<open>
  C1. Let object \<open>h\<close> have record \<open>d\<close> with guard list \<open>gs\<close> and binding list \<open>bs\<close>, of any
  lengths, and a sound context-list node. Then \<open>destroyed h\<close> returns, and afterwards every
  guard of \<open>gs\<close> has no target and is in no list, the target of every other guard is as
  before, \<open>h\<close> has no record, and, if the guards with target \<open>h\<close> were all in the list, no
  guard has target \<open>h\<close>. Moreover, for every unregistered guard \<open>g\<close> with target \<open>h\<close>:
  after \<open>addGuard g\<close> and then \<open>destroyed h\<close>, \<open>g\<close> has no target, and neither has any guard
  of \<open>gs\<close>.
\<close>

theorem destroyed_invalidates_guards:
  assumes "declarativeData s h = Some d" and "guardList s (GuardsSlot d) gs"
    and "lookupData s d = Some dr" and "bindingList s (bindings dr) bs"
    and "contextNodeValid s d"
  shows "(\<exists>s'. destroyed h s = Some (Inr s') \<and>
            (\<forall>g \<in> set gs. target s' g = None \<and> unregistered s' g) \<and>
            (\<forall>x. x \<notin> set gs \<longrightarrow> target s' x = target s x) \<and>
            ((\<forall>x. target s x = Some h \<longrightarrow> x \<in> set gs) \<longrightarrow> (\<forall>x. target s' x \<noteq> Some h)) \<and>
            declarativeData s' h = None) \<and>
         (\<forall>g. unregistered s g \<and> target s g = Some h \<longrightarrow>
            (\<exists>s1 s'. addGuard g s = Inr s1 \<and> target s1 g = Some h \<and>
               destroyed h s1 = Some (Inr s') \<and> target s' g = None \<and>
               (\<forall>x \<in> set gs. target s' x = None)))"
proof (intro conjI allI impI)
  show "\<exists>s'. destroyed h s = Some (Inr s') \<and>
            (\<forall>g \<in> set gs. target s' g = None \<and> unregistered s' g) \<and>
            (\<forall>x. x \<notin> set gs \<longrightarrow> target s' x = target s x) \<and>
            ((\<forall>x. target s x = Some h \<longrightarrow> x \<in> set gs) \<longrightarrow> (\<forall>x. target s' x \<noteq> Some h)) \<and>
            declarativeData s' h = None"
    using assms by (rule destroyed_list)
next
  fix g assume "unregistered s g \<and> target s g = Some h"
  then have u: "unregistered s g" and t: "target s g = Some h" by simp_all
  from addGuard_registers [OF assms(1,2) u t] obtain s1 dr0 where
    reg: "addGuard g s = Inr s1 \<and> declarativeData s1 h = Some d \<and>
     guardList s1 (GuardsSlot d) (g # gs) \<and> (\<forall>x. target s1 x = target s x) \<and>
     lookupData s d = Some dr0 \<and> lookupData s1 d = Some (dr0\<lparr>guards := Some g\<rparr>) \<and>
     (\<forall>d'. d' \<noteq> d \<longrightarrow> lookupData s1 d' = lookupData s d') \<and>
     bindingHeap s1 = bindingHeap s"
    by (elim exE) (rule that)
  have dr0: "dr0 = dr" using reg assms(3) by simp
  have a: "addGuard g s = Inr s1" and D: "declarativeData s1 h = Some d"
    and gl1: "guardList s1 (GuardsSlot d) (g # gs)"
    and L: "lookupData s1 d = Some (dr\<lparr>guards := Some g\<rparr>)"
    and O: "\<And>d'. d' \<noteq> d \<Longrightarrow> lookupData s1 d' = lookupData s d'"
    and B: "bindingHeap s1 = bindingHeap s" and T: "target s1 g = Some h"
    using reg dr0 t by simp_all
  have "bindingList s1 (bindings dr) bs = bindingList s (bindings dr) bs"
    using B by (intro bindingList_cong) simp
  then have bl: "bindingList s1 (bindings (dr\<lparr>guards := Some g\<rparr>)) bs" using assms(4) by simp
  have same: "(\<exists>y. lookupData s1 d' = Some y) = (\<exists>y. lookupData s d' = Some y)" for d'
    using L O [of d'] assms(3) by (cases "d' = d") simp_all
  have cv: "contextNodeValid s1 d"
    using assms(5) unfolding contextNodeValid_def
    by (simp add: L assms(3) same split: option.splits context_slot.splits)
  from destroyed_list [OF D gl1 L bl cv] obtain s' where
    "destroyed h s1 = Some (Inr s')" and "\<forall>x \<in> set (g # gs). target s' x = None \<and> unregistered s' x"
    by blast
  then show "\<exists>s1 s'. addGuard g s = Inr s1 \<and> target s1 g = Some h \<and>
               destroyed h s1 = Some (Inr s') \<and> target s' g = None \<and>
               (\<forall>x \<in> set gs. target s' x = None)"
    using a T by auto
qed


theorem destroyed_invalidates_guards_witness:
  "guardList populatedStore (GuardsSlot 0) [2, 1] \<and>
   target populatedStore 2 = Some 0 \<and> target populatedStore 1 = Some 0 \<and>
   (\<exists>s'. destroyed 0 populatedStore = Some (Inr s') \<and> target s' 2 = None \<and>
      target s' 1 = None \<and> target s' 3 = Some 0 \<and> declarativeData s' 0 = None) \<and>
   (\<exists>s1 s'. addGuard 3 populatedStore = Inr s1 \<and> target s1 3 = Some 0 \<and>
      destroyed 0 s1 = Some (Inr s') \<and> target s' 3 = None \<and> target s' 2 = None \<and>
      target s' 1 = None)"
proof -
  let ?dr = "(QmlDeclarativeData_new (Some 7))
            \<lparr>bindings := Some 5, prevContextObject := Some (ContextObjectsSlot 7),
             bindingBitsSize := 4, bindingBits := Some [False, True, False, True],
             attachedProperties := Some [(5, 42)], guards := Some 2\<rparr>"
  have h1: "declarativeData populatedStore 0 = Some 0" by (simp add: populatedStore_def)
  have h3: "lookupData populatedStore 0 = Some ?dr"
    by (simp add: populatedStore_def lookupData_def)
  have h2: "guardList populatedStore (GuardsSlot 0) [2, 1]"
    by (simp add: linkedAt_def readGuardSlot_def guardPrevOf_def h3)
      (simp add: populatedStore_def)
  have h4: "bindingList populatedStore (bindings ?dr) [5, 6]"
    by (simp add: populatedStore_def)
  have h5: "contextNodeValid populatedStore 0"
    by (simp add: contextNodeValid_def h3) (simp add: QmlDeclarativeData_new_def)
  have t: "target populatedStore 2 = Some 0" "target populatedStore 1 = Some 0"
    "target populatedStore 3 = Some 0"
    by (simp_all add: target_def populatedStore_def newGuard_def)
  have u: "unregistered populatedStore 3"
    by (simp add: unregistered_def populatedStore_def newGuard_def)
  note inst = destroyed_invalidates_guards [OF h1 h2 h3 h4 h5]
  from inst have A: "\<exists>s'. destroyed 0 populatedStore = Some (Inr s') \<and>
            (\<forall>g \<in> set [2, 1]. target s' g = None \<and> unregistered s' g) \<and>
            (\<forall>x. x \<notin> set [2, 1] \<longrightarrow> target s' x = target populatedStore x) \<and>
            ((\<forall>x. target populatedStore x = Some 0 \<longrightarrow> x \<in> set [2, 1]) \<longrightarrow>
               (\<forall>x. target s' x \<noteq> Some 0)) \<and>
            declarativeData s' 0 = None"
    by (rule conjunct1)
  from inst have B: "\<exists>s1 s'. addGuard 3 populatedStore = Inr s1 \<and> target s1 3 = Some 0 \<and>
               destroyed 0 s1 = Some (Inr s') \<and> target s' 3 = None \<and>
               (\<forall>x \<in> set [2, 1]. target s' x = None)"
    using u t(3) by blast
  from A t(3) have A': "\<exists>s'. destroyed 0 populatedStore = Some (Inr s') \<and> target s' 2 = None \<and>
      target s' 1 = None \<and> target s' 3 = Some 0 \<and> declarativeData s' 0 = None"
    by auto
  from B have B': "\<exists>s1 s'. addGuard 3 populatedStore = Inr s1 \<and> target s1 3 = Some 0 \<and>
      destroyed 0 s1 = Some (Inr s') \<and> target s' 3 = None \<and> target s' 2 = None \<and>
      target s' 1 = None"
    by auto
  show ?thesis using h2 t(1,2) A' B' by blast
qed

section \<open>Properties of the name resolver\<close>

declare scanEnumerators.simps [simp del]

subsection \<open>The scan and the enumerations most derived first\<close>


lemma enumeratorCount_length:
  "enumeratorCount m = int (length (enumsMostDerivedFirst m))"
  by (induction m rule: enumeratorCount.induct) (auto split: option.splits)

lemma enumerator_nth:
  "0 \<le> i \<Longrightarrow> i < enumeratorCount m \<Longrightarrow>
     enumerator m i = Some (rev (enumsMostDerivedFirst m) ! nat i)"
proof (induction m i rule: enumerator.induct)
  case (1 base own i)
  show ?case
  proof (cases base)
    case None
    with 1 show ?thesis by (simp add: nth_append)
  next
    case (Some b)
    with 1 show ?thesis
      by (auto simp: nth_append enumeratorCount_length Let_def nat_diff_distrib)
  qed
qed

lemma scanEnumerators_find:
  "ii < int (length xs) \<Longrightarrow> - 1 \<le> ii \<Longrightarrow>
   (\<forall>j. 0 \<le> j \<and> j \<le> ii \<longrightarrow> enumerator m j = Some (xs ! nat j)) \<Longrightarrow>
   scanEnumerators m key ii =
     (case find (\<lambda>e. keyToValue (Some e) key \<noteq> - 1) (rev (take (nat (ii + 1)) xs)) of
        None \<Rightarrow> None
      | Some e \<Rightarrow> Some (keyToValue (Some e) key))"
proof (induction m key ii rule: scanEnumerators.induct)
  case (1 m key ii)
  show ?case
  proof (cases "ii \<ge> 0")
    case False
    with 1 have "ii = - 1" by simp
    then show ?thesis by (simp add: scanEnumerators.simps)
  next
    case True
    have tk: "take (nat (ii + 1)) xs = take (nat ii) xs @ [xs ! nat ii]"
      using True "1.prems"(1) by (simp add: nat_add_distrib take_Suc_conv_app_nth)
    have en: "enumerator m ii = Some (xs ! nat ii)" using True "1.prems"(3) by simp
    show ?thesis
    proof (cases "keyToValue (Some (xs ! nat ii)) key \<noteq> - 1")
      case True
      then show ?thesis using \<open>ii \<ge> 0\<close> en tk
        by (subst scanEnumerators.simps) (simp add: Let_def)
    next
      case False
      have "scanEnumerators m key (ii - 1) =
          (case find (\<lambda>e. keyToValue (Some e) key \<noteq> - 1) (rev (take (nat (ii - 1 + 1)) xs)) of
             None \<Rightarrow> None | Some e \<Rightarrow> Some (keyToValue (Some e) key))"
        using "1.IH"[OF \<open>ii \<ge> 0\<close> refl] False en "1.prems" \<open>ii \<ge> 0\<close> by auto
      then show ?thesis using \<open>ii \<ge> 0\<close> en tk False
        by (subst scanEnumerators.simps) (simp add: Let_def)
    qed
  qed
qed

lemma scanEnumerators_all:
  "scanEnumerators m key (enumeratorCount m - 1) =
     (case find (\<lambda>e. keyToValue (Some e) key \<noteq> - 1) (enumsMostDerivedFirst m) of
        None \<Rightarrow> None
      | Some e \<Rightarrow> Some (keyToValue (Some e) key))"
proof -
  let ?xs = "rev (enumsMostDerivedFirst m)"
  have "scanEnumerators m key (enumeratorCount m - 1) =
     (case find (\<lambda>e. keyToValue (Some e) key \<noteq> - 1)
             (rev (take (nat (enumeratorCount m - 1 + 1)) ?xs)) of
        None \<Rightarrow> None
      | Some e \<Rightarrow> Some (keyToValue (Some e) key))"
    by (rule scanEnumerators_find) (auto simp: enumeratorCount_length enumerator_nth)
  then show ?thesis by (simp add: enumeratorCount_length)
qed

lemma scanEnumerators_firstMatch:
  assumes "noMinusOne m key"
  shows "scanEnumerators m key (enumeratorCount m - 1) = firstMatch m key"
proof -
  have eq: "\<And>e. e \<in> set (enumsMostDerivedFirst m) \<Longrightarrow>
      (keyToValue (Some e) key \<noteq> - 1) = (map_of e key \<noteq> None)"
    using assms by (auto simp: noMinusOne_def list_all_iff keyToValue_def split: option.splits)
  have f: "find (\<lambda>e. keyToValue (Some e) key \<noteq> - 1) (enumsMostDerivedFirst m) =
           find (\<lambda>e. map_of e key \<noteq> None) (enumsMostDerivedFirst m)"
    by (rule find_cong) (auto simp: eq)
  show ?thesis
  proof (cases "find (\<lambda>e. map_of e key \<noteq> None) (enumsMostDerivedFirst m)")
    case None
    then show ?thesis by (simp only: scanEnumerators_all f firstMatch_def option.case)
  next
    case (Some e)
    then have "map_of e key \<noteq> None" by (auto simp: find_Some_iff)
    then have "Some (keyToValue (Some e) key) = map_of e key"
      by (auto simp: keyToValue_def)
    then show ?thesis using Some
      by (simp only: scanEnumerators_all f firstMatch_def option.case)
  qed
qed

text \<open>
  C6, as the code has it. For a concrete type as subject whose mode is \<open>IncludeEnums\<close> and a
  name whose first character is uppercase, \<open>queryProperty\<close> scans the enumerations of the
  type most derived first and answers with the value the name has in the first
  enumeration that has it as a key; with no such enumeration the name is unresolved. This
  is stated for types none of whose enumerations gives the name the value \<open>-1\<close>.
\<close>

theorem enum_lookup_most_derived_first:
  assumes "typeNamespace data = None" and "type data = Some t" and "name = c # rest"
    and "isUpper c" and "mode data = IncludeEnums"
    and "noMinusOne (baseMetaObject t) (constData (toUtf8 name))"
  shows "queryProperty ep data name flags this s =
     (case firstMatch (baseMetaObject t) (constData (toUtf8 name)) of
        Some v \<Rightarrow>
          Inr (HandlesReadAccess,
               this\<lparr>current_object := None, current_type := None, enumValue := v\<rparr>, s)
      | None \<Rightarrow> Inr (0, this\<lparr>current_object := None, current_type := None\<rparr>, s))"
  using assms
  by (simp add: queryProperty_def at_def scanEnumerators_firstMatch Let_def split: option.splits)


lemma isUpper_F: "isUpper CHR ''F''" by (simp add: isUpper_def)
lemma utf8_Foo: "constData (toUtf8 ''Foo'') = ''Foo''" by (simp add: constData_def toUtf8_def)

text \<open>The scenario of the specification: \<open>Foo = 7\<close> on the base type, \<open>Foo = 9\<close> on the
  derived type given as subject; the answer is 9.\<close>

theorem enum_lookup_most_derived_first_witness:
  "queryProperty decliningEngine (subjectOf derivedType None IncludeEnums) ''Foo'' 0
     freshScriptClass emptyStore =
   Inr (HandlesReadAccess, freshScriptClass\<lparr>enumValue := 9\<rparr>, emptyStore)"
  using enum_lookup_most_derived_first [of "subjectOf derivedType None IncludeEnums" derivedType
      "''Foo''" "CHR ''F''" "''oo''" decliningEngine 0 freshScriptClass emptyStore]
  by (simp add: subjectOf_def derivedType_def derivedMeta_def baseMeta_def isUpper_def
      utf8_Foo noMinusOne_def firstMatch_def freshScriptClass_def)

text \<open>
  The claim as stated, for every subject and every uppercase name, fails twice. With mode
  \<open>ExcludeEnums\<close> the scenario's \<open>Foo\<close> is unresolved. And with \<open>Foo = -1\<close> on the derived
  type, the first match most derived first is \<open>-1\<close>, but the answer is the base type's 7.
\<close>

theorem enum_lookup_counterexample:
  "queryProperty decliningEngine (subjectOf derivedType None ExcludeEnums) ''Foo'' 0
     freshScriptClass emptyStore = Inr (0, freshScriptClass, emptyStore) \<and>
   firstMatch (baseMetaObject minusOneType) ''Foo'' = Some (- 1) \<and>
   queryProperty decliningEngine (subjectOf minusOneType None IncludeEnums) ''Foo'' 0
     freshScriptClass emptyStore =
   Inr (HandlesReadAccess, freshScriptClass\<lparr>enumValue := 7\<rparr>, emptyStore)"
  by (simp add: queryProperty_def at_def subjectOf_def derivedType_def minusOneType_def
      derivedMeta_def baseMeta_def isUpper_def utf8_Foo firstMatch_def freshScriptClass_def
      keyToValue_def Let_def scanEnumerators.simps)


subsection \<open>Uppercase names\<close>

text \<open>
  C10. For a concrete type as subject and a name whose first character is uppercase: when
  the mode is not \<open>IncludeEnums\<close> the name is unresolved, whatever enumerations the type
  has. In every mode the answer does not depend on the object in scope, on the companion
  factory or on the object script class (it is the answer obtained with no object in
  scope), the memory is left as it is, and no companion object is set: the attached
  companion path is not taken.
\<close>

theorem uppercase_gated_on_mode:
  assumes "typeNamespace data = None" and "type data = Some t" and "name = c # rest"
    and "isUpper c"
  shows "(mode data \<noteq> IncludeEnums \<longrightarrow>
            queryProperty ep data name flags this s =
              Inr (0, this\<lparr>current_object := None, current_type := None\<rparr>, s)) \<and>
         queryProperty ep data name flags this s =
           queryProperty ep' (data\<lparr>object := None\<rparr>) name flags' this s \<and>
         (\<exists>fl this'. queryProperty ep data name flags this s = Inr (fl, this', s) \<and>
              current_object this' = None)"
  using assms
  by (auto simp: queryProperty_def at_def Let_def split: option.splits)

theorem uppercase_gated_on_mode_witness:
  "queryProperty makingEngine (subjectOf derivedType (Some 0) ExcludeEnums) ''Foo'' 0
      freshScriptClass emptyStore = Inr (0, freshScriptClass, emptyStore) \<and>
   firstMatch (baseMetaObject derivedType) ''Foo'' = Some 9 \<and>
   queryProperty makingEngine (subjectOf derivedType (Some 0) IncludeEnums) ''Foo'' 0
      freshScriptClass emptyStore =
   queryProperty decliningEngine (subjectOf derivedType None IncludeEnums) ''Foo'' 0
      freshScriptClass emptyStore"
  using uppercase_gated_on_mode [of "subjectOf derivedType (Some 0) ExcludeEnums" derivedType
      "''Foo''" "CHR ''F''" "''oo''" makingEngine 0 freshScriptClass emptyStore decliningEngine 0]
    uppercase_gated_on_mode [of "subjectOf derivedType (Some 0) IncludeEnums" derivedType
      "''Foo''" "CHR ''F''" "''oo''" makingEngine 0 freshScriptClass emptyStore decliningEngine 0]
  by (simp add: subjectOf_def derivedType_def derivedMeta_def baseMeta_def isUpper_def
      firstMatch_def freshScriptClass_def)

subsection \<open>The first character\<close>

text \<open>
  C9. For a concrete type as subject, \<open>queryProperty\<close> reads the first character of the
  name whatever the mode and the object in scope: on the empty name the read is out of
  range, and on a non-empty name it never is. On a non-empty name the function returns a
  result, provided the back-pointer of the object in scope, if set, is that of a record in
  use.
\<close>

theorem queryProperty_reads_first_character:
  assumes "typeNamespace data = None" and "type data = Some t"
  shows "(name = [] \<longrightarrow> queryProperty ep data name flags this s = Inl IndexOutOfRange) \<and>
         (name \<noteq> [] \<longrightarrow> queryProperty ep data name flags this s \<noteq> Inl IndexOutOfRange) \<and>
         (name \<noteq> [] \<longrightarrow> (\<forall>h. object data = Some h \<longrightarrow> hostValid s h) \<longrightarrow>
            (\<exists>r. queryProperty ep data name flags this s = Inr r))"
proof (cases name)
  case Nil
  then show ?thesis using assms by (simp add: queryProperty_def at_def)
next
  case (Cons c rest)
  show ?thesis
  proof (cases "isUpper c")
    case True
    then show ?thesis using assms Cons
      by (auto simp: queryProperty_def at_def Let_def split: option.splits)
  next
    case False
    show ?thesis
    proof (cases "object data")
      case None
      then show ?thesis using assms Cons False
        by (auto simp: queryProperty_def at_def Let_def split: option.splits)
    next
      case (Some h)
      have a: "qmlAttachedPropertiesObjectById ep (index t) h s \<noteq> Inl IndexOutOfRange"
        by (auto simp: qmlAttachedPropertiesObjectById_def split: option.splits prod.splits)
      have b: "hostValid s h \<Longrightarrow> \<exists>r. qmlAttachedPropertiesObjectById ep (index t) h s = Inr r"
        by (auto simp: qmlAttachedPropertiesObjectById_def hostValid_def get_def Let_def
            lookupData_append_new split: option.splits prod.splits)
      show ?thesis using assms Cons False Some a b
        by (auto simp: queryProperty_def at_def Let_def split: option.splits sum.splits)
    qed
  qed
qed


theorem queryProperty_reads_first_character_witness:
  "queryProperty decliningEngine (subjectOf derivedType (Some 0) IncludeEnums) [] 0
      freshScriptClass emptyStore = Inl IndexOutOfRange \<and>
   (\<exists>r. queryProperty decliningEngine (subjectOf derivedType (Some 0) IncludeEnums) ''foo'' 0
      freshScriptClass emptyStore = Inr r)"
  using queryProperty_reads_first_character [of "subjectOf derivedType (Some 0) IncludeEnums"
      derivedType "[]" decliningEngine 0 freshScriptClass emptyStore]
    queryProperty_reads_first_character [of "subjectOf derivedType (Some 0) IncludeEnums"
      derivedType "''foo''" decliningEngine 0 freshScriptClass emptyStore]
  by (simp add: subjectOf_def hostValid_def emptyStore_def)

subsection \<open>A companion factory that declines\<close>

lemma get_True_valid:
  assumes "hostValid s h"
  shows "\<exists>d dr s1. get h True s = (Some d, s1) \<and> lookupData s1 d = Some dr \<and>
           declarativeData s1 h = Some d \<and> d < length (dataHeap s1) \<and>
           (case attachedProperties dr of None \<Rightarrow> None | Some hash \<Rightarrow> map_of hash typeId) =
             cachedCompanion s h typeId"
proof (cases "declarativeData s h")
  case None
  then show ?thesis
    by (simp add: get_def Let_def lookupData_append_new cachedCompanion_def
        QmlDeclarativeData_new_def)
next
  case (Some d)
  with assms obtain dr where dr: "lookupData s d = Some dr" by (auto simp: hostValid_def)
  then have "d < length (dataHeap s)" by (simp add: lookupData_def split: if_splits)
  with Some dr show ?thesis by (simp add: get_def cachedCompanion_def)
qed

lemma declined_step:
  assumes "hostValid s h" and "cachedCompanion s h typeId = None"
    and "attachedPropertiesFunc ep typeId h = None"
  shows "\<exists>s'. qmlAttachedPropertiesObjectById ep typeId h s = Inr (None, s') \<and>
           hostValid s' h \<and> cachedCompanion s' h typeId = None"
proof -
  obtain d dr s1 where g: "get h True s = (Some d, s1)" and l: "lookupData s1 d = Some dr"
    and dd: "declarativeData s1 h = Some d"
    and c: "(case attachedProperties dr of None \<Rightarrow> None | Some hash \<Rightarrow> map_of hash typeId) =
             cachedCompanion s h typeId"
    using get_True_valid [OF assms(1)] by blast
  have "qmlAttachedPropertiesObjectById ep typeId h s = Inr (None, s1)"
    using g l c assms(2,3) by (simp add: qmlAttachedPropertiesObjectById_def)
  moreover have "hostValid s1 h" using dd l by (simp add: hostValid_def)
  moreover have "cachedCompanion s1 h typeId = None"
    using dd l c assms(2) by (simp add: cachedCompanion_def)
  ultimately show ?thesis by blast
qed

lemma made_step:
  assumes "hostValid s h" and "cachedCompanion s h typeId = None"
    and "attachedPropertiesFunc ep typeId h = Some companion"
  shows "\<exists>s'. qmlAttachedPropertiesObjectById ep typeId h s = Inr (Some companion, s') \<and>
           cachedCompanion s' h typeId = Some companion"
proof -
  obtain d dr s1 where g: "get h True s = (Some d, s1)" and l: "lookupData s1 d = Some dr"
    and dd: "declarativeData s1 h = Some d" and len: "d < length (dataHeap s1)"
    and c: "(case attachedProperties dr of None \<Rightarrow> None | Some hash \<Rightarrow> map_of hash typeId) =
             cachedCompanion s h typeId"
    using get_True_valid [OF assms(1)] by blast
  let ?dr = "dr\<lparr>attachedProperties :=
       Some ((typeId, companion) # (case attachedProperties dr of None \<Rightarrow> [] | Some hash \<Rightarrow> hash))\<rparr>"
  have "qmlAttachedPropertiesObjectById ep typeId h s = Inr (Some companion, storeData d ?dr s1)"
    using g l c assms(2,3) by (simp add: qmlAttachedPropertiesObjectById_def)
  moreover have "declarativeData (storeData d ?dr s1) h = Some d"
    using dd by (simp add: storeData_def)
  then have "cachedCompanion (storeData d ?dr s1) h typeId = Some companion"
    using len by (simp add: cachedCompanion_def lookupData_storeData)
  ultimately show ?thesis by blast
qed

text \<open>
  C7. For a concrete type as subject, an object \<open>h\<close> in scope with no companion cached for
  the type, and a name whose first character is not uppercase: when the companion factory
  declines, \<open>queryProperty\<close> answers unresolved and still no companion is cached for the
  type; and a later query of the same name against the same object, with a factory that
  then makes companion \<open>companion\<close>, asks the factory again, delegates to the object
  script class on that companion and caches it.
\<close>

theorem declined_companion_not_cached:
  assumes "typeNamespace data = None" and "type data = Some t" and "object data = Some h"
    and "name = c # rest" and "\<not> isUpper c" and "hostValid s h"
    and "cachedCompanion s h (index t) = None"
    and "attachedPropertiesFunc ep (index t) h = None"
  shows "\<exists>this' s'. queryProperty ep data name flags this s = Inr (0, this', s') \<and>
           cachedCompanion s' h (index t) = None \<and>
           (\<forall>ep2 companion. attachedPropertiesFunc ep2 (index t) h = Some companion \<longrightarrow>
              (\<exists>s''. queryProperty ep2 data name flags this' s' =
                        Inr (objectClass_queryProperty ep2 companion name flags,
                             this'\<lparr>current_object := Some companion\<rparr>, s'') \<and>
                     cachedCompanion s'' h (index t) = Some companion))"
proof -
  obtain s' where 1: "qmlAttachedPropertiesObjectById ep (index t) h s = Inr (None, s')"
    and 2: "hostValid s' h" and 3: "cachedCompanion s' h (index t) = None"
    using declined_step [OF assms(6,7,8)] by blast
  let ?cls = "this\<lparr>current_object := None, current_type := None\<rparr>"
  have q: "queryProperty ep data name flags this s = Inr (0, ?cls, s')"
    using assms(1-5) 1 by (simp add: queryProperty_def at_def Let_def)
  have "\<exists>s''. queryProperty ep2 data name flags ?cls s' =
                 Inr (objectClass_queryProperty ep2 companion name flags,
                      ?cls\<lparr>current_object := Some companion\<rparr>, s'') \<and>
               cachedCompanion s'' h (index t) = Some companion"
    if ap: "attachedPropertiesFunc ep2 (index t) h = Some companion" for ep2 companion
  proof -
    obtain s'' where "qmlAttachedPropertiesObjectById ep2 (index t) h s' = Inr (Some companion, s'')"
      and "cachedCompanion s'' h (index t) = Some companion"
      using made_step [OF 2 3 ap] by blast
    then show ?thesis using assms(1-5) by (simp add: queryProperty_def at_def Let_def)
  qed
  with q 3 show ?thesis by blast
qed


theorem declined_companion_not_cached_witness:
  "\<exists>this' s'.
      queryProperty decliningEngine (subjectOf derivedType (Some 0) IncludeEnums) ''foo'' 0
        freshScriptClass emptyStore = Inr (0, this', s') \<and>
      cachedCompanion s' 0 5 = None \<and>
      (\<exists>s''. queryProperty makingEngine (subjectOf derivedType (Some 0) IncludeEnums) ''foo'' 0
                this' s' = Inr (HandlesReadAccess, this'\<lparr>current_object := Some 42\<rparr>, s'') \<and>
             cachedCompanion s'' 0 5 = Some 42)"
proof -
  have "\<exists>this' s'.
      queryProperty decliningEngine (subjectOf derivedType (Some 0) IncludeEnums) ''foo'' 0
        freshScriptClass emptyStore = Inr (0, this', s') \<and>
      cachedCompanion s' 0 (index derivedType) = None \<and>
      (\<forall>ep2 companion. attachedPropertiesFunc ep2 (index derivedType) 0 = Some companion \<longrightarrow>
         (\<exists>s''. queryProperty ep2 (subjectOf derivedType (Some 0) IncludeEnums) ''foo'' 0 this' s' =
                   Inr (objectClass_queryProperty ep2 companion ''foo'' 0,
                        this'\<lparr>current_object := Some companion\<rparr>, s'') \<and>
                cachedCompanion s'' 0 (index derivedType) = Some companion))"
    by (rule declined_companion_not_cached [where c = "CHR ''f''" and rest = "''oo''"])
      (simp_all add: subjectOf_def hostValid_def emptyStore_def cachedCompanion_def isUpper_def
        decliningEngine_def)
  then obtain this' s' where
    a: "queryProperty decliningEngine (subjectOf derivedType (Some 0) IncludeEnums) ''foo'' 0
        freshScriptClass emptyStore = Inr (0, this', s')"
    and b: "cachedCompanion s' 0 (index derivedType) = None"
    and c: "\<And>ep2 companion. attachedPropertiesFunc ep2 (index derivedType) 0 = Some companion \<Longrightarrow>
         (\<exists>s''. queryProperty ep2 (subjectOf derivedType (Some 0) IncludeEnums) ''foo'' 0 this' s' =
                   Inr (objectClass_queryProperty ep2 companion ''foo'' 0,
                        this'\<lparr>current_object := Some companion\<rparr>, s'') \<and>
                cachedCompanion s'' 0 (index derivedType) = Some companion)"
    by blast
  have "attachedPropertiesFunc makingEngine (index derivedType) 0 = Some 42"
    by (simp add: makingEngine_def)
  from c [OF this] a b show ?thesis
    by (simp add: makingEngine_def derivedType_def)
qed

end
